theory Spec2Isabelle
  imports Main "HOL-Library.Word" "HOL-Library.Signed_Division"
begin

unbundle bit_operations_syntax

section \<open>Machine integers of the Go source\<close>

text \<open>
  \<open>uint8\<close> is \<open>8 word\<close>, \<open>uint\<close>/\<open>uint64\<close> are \<open>64 word\<close> (the constants of
  \<open>index\<close> only fit a 64-bit \<open>uint\<close>), \<open>int64\<close> is \<open>64 word\<close> read with \<open>sint\<close>.
\<close>

type_synonym uint8 = "8 word"
type_synonym uint64 = "64 word"
type_synonym int64 = "64 word"

text \<open>Every panic and error return of the source is a value.\<close>

datatype error = InvalidConfiguration | DivideByZero | IndexOutOfRange | NegativeLength

text \<open>
  Go's \<open>/\<close> and \<open>%\<close> on \<open>int64\<close>: the quotient is truncated towards zero, the
  remainder has the sign of the dividend, the most negative value divided by \<open>-1\<close>
  wraps around. Both are only called with a divisor already checked against zero.
\<close>

definition go_div :: "int64 \<Rightarrow> int64 \<Rightarrow> int64" where
  "go_div x y = word_of_int (sint x sdiv sint y)"

definition go_rem :: "int64 \<Rightarrow> int64 \<Rightarrow> int64" where
  "go_rem x y = word_of_int (sint x smod sint y)"

section \<open>Package time56: the wrapping 56-bit timestamp\<close>

text \<open>
  Modelled from the spec: package \<open>time56\<close> (\<open>Unix\<close>, \<open>Since\<close>, \<open>Sub\<close>, \<open>Pack\<close>,
  \<open>Unpack\<close>) is imported by \<open>bucket.go\<close> and its source is not part of the files at
  hand. The spec (section 3) fixes what it computes: a timestamp is a value modulo
  \<open>2 ^ 56\<close>; the elapsed time between two stamps is \<open>(now - stamp) mod 2 ^ 56\<close> read as a
  signed number; a packed word holds the level in its most significant 8 bits and the
  stamp in the remaining 56 bits.
\<close>

type_synonym Time = "56 word"

definition Unix :: "int64 \<Rightarrow> Time" where
  "Unix ns = ucast ns"

definition Since :: "Time \<Rightarrow> Time \<Rightarrow> int64" where
  "Since t u = scast (t - u)"

definition Sub :: "Time \<Rightarrow> int64 \<Rightarrow> Time" where
  "Sub t ns = t - ucast ns"

definition Pack :: "Time \<Rightarrow> uint8 \<Rightarrow> uint64" where
  "Pack t v = push_bit 56 (ucast v) OR ucast t"

definition Unpack :: "uint64 \<Rightarrow> uint8 \<times> Time" where
  "Unpack p = (ucast (drop_bit 56 p), ucast p)"

section \<open>The token bucket (bucket.go)\<close>

record tokenBucket =
  level :: uint8
  stamp :: Time

definition newTokenBucket :: "uint8 \<Rightarrow> Time \<Rightarrow> tokenBucket" where
  "newTokenBucket l s = \<lparr>level = l, stamp = s\<rparr>"

text \<open>
  \<open>refill\<close>, statement by statement. \<open>elapsed / rate\<close> panics in Go when \<open>rate\<close> is
  zero; the source reaches the division only after the \<open>elapsed <= 0\<close> return.
  \<open>maxLevel - b.level\<close> is a \<open>uint8\<close> subtraction and wraps; \<open>int64(avail)\<close> zero-extends
  and \<open>uint8(tokens)\<close> truncates.
\<close>

definition refill :: "tokenBucket \<Rightarrow> int64 \<Rightarrow> int64 \<Rightarrow> uint8 \<Rightarrow> error + tokenBucket" where
  "refill b nowNS rate maxLevel =
     (let now = Unix nowNS;
          elapsed = Since now (stamp b)
      in if elapsed \<le>s 0 then Inr b
         else if rate = 0 then Inl DivideByZero
         else
           let tokens = go_div elapsed rate
           in if tokens \<le>s 0 then Inr b
              else
                let avail = maxLevel - level b;
                    lvl = (if tokens <s ucast avail then level b + ucast tokens else maxLevel)
                in if level b \<noteq> lvl
                   then Inr (b\<lparr>stamp := Sub now (go_rem elapsed rate), level := lvl\<rparr>)
                   else Inr b)"

definition take_bucket :: "tokenBucket \<Rightarrow> tokenBucket \<times> bool" where
  "take_bucket b = (if level b > 0 then (b\<lparr>level := level b - 1\<rparr>, True) else (b, False))"

definition packed :: "tokenBucket \<Rightarrow> uint64" where
  "packed b = Pack (stamp b) (level b)"

definition unpack :: "uint64 \<Rightarrow> tokenBucket" where
  "unpack p = (case Unpack p of (l, s) \<Rightarrow> newTokenBucket l s)"

section \<open>The atomic word array\<close>

text \<open>
  Modelled from the spec: \<open>atomicSliceUint64\<close> (\<open>newAtomicSliceUint64\<close>, \<open>Get\<close>,
  \<open>Set\<close>, \<open>CompareAndSwap\<close>) is used by \<open>bucket.go\<close> and its source is not part of
  the files at hand. The spec (section 6) describes a fixed-length array of 64-bit
  slots, indexable \<open>0..N-1\<close>, with a load and a compare-and-swap per index. An index is
  a Go \<open>int\<close>; an index outside the array and a negative length panic, as Go slices do.
  Each operation is one atomic step on the array and returns the array after it.
\<close>

type_synonym atomicSliceUint64 = "uint64 list"

definition in_range :: "atomicSliceUint64 \<Rightarrow> int64 \<Rightarrow> bool" where
  "in_range a i \<longleftrightarrow> 0 \<le> sint i \<and> nat (sint i) < length a"

definition newAtomicSliceUint64 :: "int64 \<Rightarrow> error + atomicSliceUint64" where
  "newAtomicSliceUint64 n =
     (if sint n < 0 then Inl NegativeLength else Inr (replicate (nat (sint n)) 0))"

definition Get :: "atomicSliceUint64 \<Rightarrow> int64 \<Rightarrow> error + uint64" where
  "Get a i = (if in_range a i then Inr (a ! nat (sint i)) else Inl IndexOutOfRange)"

definition Set_slot :: "atomicSliceUint64 \<Rightarrow> int64 \<Rightarrow> uint64 \<Rightarrow> error + atomicSliceUint64" where
  "Set_slot a i v = (if in_range a i then Inr (a[nat (sint i) := v]) else Inl IndexOutOfRange)"

definition CompareAndSwap ::
  "atomicSliceUint64 \<Rightarrow> int64 \<Rightarrow> uint64 \<Rightarrow> uint64 \<Rightarrow> error + (bool \<times> atomicSliceUint64)" where
  "CompareAndSwap a i old new =
     (if in_range a i
      then (if a ! nat (sint i) = old then Inr (True, a[nat (sint i) := new]) else Inr (False, a))
      else Inl IndexOutOfRange)"

section \<open>The limiter (bucket.go)\<close>

text \<open>
  The fields \<open>refillRate\<close> (a \<open>float64\<close>) and \<open>refillRateUnit\<close> are only stored by the
  constructor and read by no operation; they enter the limiter through \<open>nanoRate\<close>,
  whose floating-point product is outside this embedding. The constructor of the model
  therefore takes the \<open>int64\<close> that \<open>nanoRate\<close> returned. The clock \<open>nowfn\<close> is read
  once per operation; its reading \<open>nowfn().UnixNano()\<close> is an argument.
\<close>

record TokenBucketLimiter =
  buckets :: atomicSliceUint64
  bucketMask :: uint64
  burstCapacity :: uint8
  refillIntervalNanos :: int64
  numBuckets :: uint64

text \<open>The loop \<open>for i := range numBuckets { buckets.Set(int(i), packed) }\<close>.\<close>

fun set_each :: "atomicSliceUint64 \<Rightarrow> nat list \<Rightarrow> uint64 \<Rightarrow> error + atomicSliceUint64" where
  "set_each a [] v = Inr a"
| "set_each a (i # is) v =
     (case Set_slot a (word_of_nat i) v of Inl e \<Rightarrow> Inl e | Inr a' \<Rightarrow> set_each a' is v)"

definition NewTokenBucketLimiter ::
  "uint64 \<Rightarrow> uint8 \<Rightarrow> int64 \<Rightarrow> int64 \<Rightarrow> error + TokenBucketLimiter" where
  "NewTokenBucketLimiter n cap nanos now =
     (let powerOfTwo = (n \<noteq> 0 \<and> n AND (n - 1) = 0)
      in if \<not> powerOfTwo then Inl InvalidConfiguration
         else
           let st = Unix now;
               bucket = newTokenBucket cap st;
               p = packed bucket
           in case newAtomicSliceUint64 n of
                Inl e \<Rightarrow> Inl e
              | Inr bs \<Rightarrow>
                  (case set_each bs [0..<unat n] p of
                     Inl e \<Rightarrow> Inl e
                   | Inr bs' \<Rightarrow>
                       Inr \<lparr>buckets = bs', bucketMask = n - 1, burstCapacity = cap,
                            refillIntervalNanos = nanos, numBuckets = n\<rparr>))"

text \<open>\<open>index\<close>: the loop over the bytes of the identifier, then the mask.\<close>

fun index_loop :: "uint64 \<Rightarrow> uint8 list \<Rightarrow> uint64" where
  "index_loop h [] = h"
| "index_loop h (b # bs) = index_loop ((h XOR ucast b) * 1099511628211) bs"

definition index :: "TokenBucketLimiter \<Rightarrow> uint8 list \<Rightarrow> int64" where
  "index t ident = index_loop 14695981039346656037 ident AND bucketMask t"

definition checkInner ::
  "TokenBucketLimiter \<Rightarrow> int64 \<Rightarrow> int64 \<Rightarrow> int64 \<Rightarrow> (error + bool) \<times> TokenBucketLimiter" where
  "checkInner t idx rate now =
     (case Get (buckets t) idx of
        Inl e \<Rightarrow> (Inl e, t)
      | Inr existing \<Rightarrow>
          (case refill (unpack existing) now rate (burstCapacity t) of
             Inl e \<Rightarrow> (Inl e, t)
           | Inr refilled \<Rightarrow> (Inr (level refilled > 0), t)))"

text \<open>
  \<open>takeTokenInner\<close>: the clock is read once, before the loop; the loop starts over
  when the compare-and-swap fails. Not returning is the value \<open>None\<close>.
\<close>

partial_function (option) takeTokenInner ::
  "TokenBucketLimiter \<Rightarrow> int64 \<Rightarrow> int64 \<Rightarrow> int64 \<Rightarrow> ((error + bool) \<times> TokenBucketLimiter) option" where
  "takeTokenInner t idx rate now =
     (case Get (buckets t) idx of
        Inl e \<Rightarrow> Some (Inl e, t)
      | Inr existing \<Rightarrow>
          (case refill (unpack existing) now rate (burstCapacity t) of
             Inl e \<Rightarrow> Some (Inl e, t)
           | Inr refilled \<Rightarrow>
               (case take_bucket refilled of
                  (updated, taken) \<Rightarrow>
                    if updated \<noteq> unpack existing
                    then (case CompareAndSwap (buckets t) idx existing (packed updated) of
                            Inl e \<Rightarrow> Some (Inl e, t)
                          | Inr (swapped, bs) \<Rightarrow>
                              if \<not> swapped then takeTokenInner (t\<lparr>buckets := bs\<rparr>) idx rate now
                              else Some (Inr taken, t\<lparr>buckets := bs\<rparr>))
                    else Some (Inr taken, t))))"

declare takeTokenInner.simps [code]

definition Check :: "TokenBucketLimiter \<Rightarrow> int64 \<Rightarrow> uint8 list \<Rightarrow> (error + bool) \<times> TokenBucketLimiter" where
  "Check t now ident = checkInner t (index t ident) (refillIntervalNanos t) now"

definition TakeToken ::
  "TokenBucketLimiter \<Rightarrow> int64 \<Rightarrow> uint8 list \<Rightarrow> ((error + bool) \<times> TokenBucketLimiter) option" where
  "TakeToken t now ident = takeTokenInner t (index t ident) (refillIntervalNanos t) now"



section \<open>Sequences of calls\<close>

text \<open>
  A caller's view of the limiter: a list of calls, each with the reading of the clock
  at that call. A call that panics leaves the limiter as it was.
\<close>

datatype call = CheckCall "uint8 list" | TakeTokenCall "uint8 list"


fun do_call :: "TokenBucketLimiter \<Rightarrow> int64 \<times> call \<Rightarrow> ((error + bool) \<times> TokenBucketLimiter) option" where
  "do_call t (now, CheckCall i) = Some (Check t now i)"
| "do_call t (now, TakeTokenCall i) = TakeToken t now i"

fun run_calls ::
  "TokenBucketLimiter \<Rightarrow> (int64 \<times> call) list \<Rightarrow> ((error + bool) list \<times> TokenBucketLimiter) option" where
  "run_calls t [] = Some ([], t)"
| "run_calls t (c # cs) =
     (case do_call t c of
        None \<Rightarrow> None
      | Some (r, t') \<Rightarrow>
          (case run_calls t' cs of None \<Rightarrow> None | Some (rs, t'') \<Rightarrow> Some (r # rs, t'')))"

section \<open>The refill algorithm as the specification words it\<close>

text \<open>
  Section 4.2 of the specification, on mathematical integers: the wraparound-safe
  difference of section 3, the floor of the quotient, the minimum with the capacity,
  and the stamp advanced by the time spent on whole tokens.
\<close>

definition wrappingDifference :: "int \<Rightarrow> int \<Rightarrow> int" where
  "wrappingDifference now st =
     (let d = (now - st) mod 2 ^ 56 in if d < 2 ^ 55 then d else d - 2 ^ 56)"

definition refill_spec :: "tokenBucket \<Rightarrow> int64 \<Rightarrow> int64 \<Rightarrow> uint8 \<Rightarrow> tokenBucket" where
  "refill_spec b nowNS rate capacity =
     (let elapsed = wrappingDifference (uint nowNS mod 2 ^ 56) (uint (stamp b))
      in if elapsed \<le> 0 then b
         else
           let tokensAccrued = elapsed div sint rate
           in if tokensAccrued \<le> 0 then b
              else
                let newLevel = min (uint capacity) (uint (level b) + tokensAccrued)
                in if newLevel \<noteq> uint (level b)
                   then b\<lparr>level := word_of_int newLevel,
                          stamp := word_of_int (uint (stamp b) + (elapsed - elapsed mod sint rate))\<rparr>
                   else b)"

text \<open>
  Section 4.5 of the specification: the 64-bit FNV-1a hash, from the offset basis, for
  each byte an exclusive or and then a multiplication by the prime.
\<close>

definition FNV1a64 :: "uint8 list \<Rightarrow> uint64" where
  "FNV1a64 ident = foldl (\<lambda>h b. (h XOR ucast b) * 1099511628211) 14695981039346656037 ident"

text \<open>A power of two among the values of a 64-bit \<open>uint\<close>.\<close>

definition is_power_of_two :: "uint64 \<Rightarrow> bool" where
  "is_power_of_two n \<longleftrightarrow> (\<exists>k \<in> {0..<64}. n = 2 ^ k)"




text \<open>
  Repeated \<open>refill\<close> calls on one bucket, at the given clock readings in turn; and the
  clock readings of calls separated by the given waiting intervals (in nanoseconds),
  counted from the reading \<open>t\<close>.
\<close>

fun refills :: "tokenBucket \<Rightarrow> int64 list \<Rightarrow> int64 \<Rightarrow> uint8 \<Rightarrow> error + tokenBucket" where
  "refills b [] rate cap = Inr b"
| "refills b (now # nows) rate cap =
     (case refill b now rate cap of Inl e \<Rightarrow> Inl e | Inr b' \<Rightarrow> refills b' nows rate cap)"

fun instants :: "int64 \<Rightarrow> nat list \<Rightarrow> int64 list" where
  "instants t [] = []"
| "instants t (d # ds) = (t + of_nat d) # instants (t + of_nat d) ds"

section \<open>Concurrent callers\<close>

text \<open>
  Callers of \<open>TakeToken\<close> racing on one limiter, as an interleaving of their atomic
  steps. A caller runs \<open>takeTokenInner\<close>: it reads the clock once, then goes back and forth between
  the load \<open>t.buckets.Get(index)\<close> and the compare-and-swap. Between the two atomic
  operations it only computes on values of its own (\<open>unpack\<close>, \<open>refill\<close>, \<open>take\<close>,
  \<open>packed\<close>), so that computation is part of the step that ends in the
  compare-and-swap or in the return. A caller is at one of four places: the call
  entered; before the load, holding its index and its clock reading; before the
  compare-and-swap, holding also the loaded word; returned, with its index and what
  it returned (a panic is a returned error).
\<close>

datatype caller =
    Called "uint8 list"
  | AtGet int64 int64
  | AtCompareAndSwap int64 int64 uint64
  | Returned int64 "error + bool"

definition caller_step ::
  "TokenBucketLimiter \<Rightarrow> int64 \<Rightarrow> caller \<Rightarrow> caller \<times> TokenBucketLimiter" where
  "caller_step t clock c =
     (case c of
        Called ident \<Rightarrow> (AtGet (index t ident) clock, t)
      | AtGet idx now \<Rightarrow>
          (case Get (buckets t) idx of
             Inl e \<Rightarrow> (Returned idx (Inl e), t)
           | Inr existing \<Rightarrow> (AtCompareAndSwap idx now existing, t))
      | AtCompareAndSwap idx now existing \<Rightarrow>
          (case refill (unpack existing) now (refillIntervalNanos t) (burstCapacity t) of
             Inl e \<Rightarrow> (Returned idx (Inl e), t)
           | Inr refilled \<Rightarrow>
               (case take_bucket refilled of
                  (updated, taken) \<Rightarrow>
                    if updated \<noteq> unpack existing
                    then (case CompareAndSwap (buckets t) idx existing (packed updated) of
                            Inl e \<Rightarrow> (Returned idx (Inl e), t)
                          | Inr (swapped, bs) \<Rightarrow>
                              if \<not> swapped then (AtGet idx now, t\<lparr>buckets := bs\<rparr>)
                              else (Returned idx (Inr taken), t\<lparr>buckets := bs\<rparr>))
                    else (Returned idx (Inr taken), t)))
      | Returned idx r \<Rightarrow> (Returned idx r, t))"

text \<open>
  One step of the system: some caller takes its next step, at the reading \<open>clock\<close> of
  the clock. The scheduler is arbitrary.
\<close>

inductive step ::
  "int64 \<Rightarrow> TokenBucketLimiter \<times> caller list \<Rightarrow> TokenBucketLimiter \<times> caller list \<Rightarrow> bool"
  for clock :: int64 where
  "k < length cs \<Longrightarrow> caller_step t clock (cs ! k) = (c', t') \<Longrightarrow>
     step clock (t, cs) (t', cs[k := c'])"

text \<open>The same steps under a given schedule: the list of the callers that move, in order.\<close>

fun run_schedule ::
  "int64 \<Rightarrow> nat list \<Rightarrow> TokenBucketLimiter \<times> caller list \<Rightarrow> TokenBucketLimiter \<times> caller list" where
  "run_schedule clock [] s = s"
| "run_schedule clock (k # ks) (t, cs) =
     (if k < length cs
      then (case caller_step t clock (cs ! k) of
              (c', t') \<Rightarrow> run_schedule clock ks (t', cs[k := c']))
      else run_schedule clock ks (t, cs))"





section \<open>Invariants of a limiter\<close>

text \<open>
  What the constructor establishes about the configuration, and what the capacity
  invariant says about the bucket array.
\<close>

definition well_formed :: "TokenBucketLimiter \<Rightarrow> bool" where
  "well_formed t \<longleftrightarrow>
     0 < sint (numBuckets t) \<and> length (buckets t) = unat (numBuckets t)
     \<and> bucketMask t = numBuckets t - 1"

definition levels_within :: "TokenBucketLimiter \<Rightarrow> bool" where
  "levels_within t \<longleftrightarrow> (\<forall>w \<in> set (buckets t). level (unpack w) \<le> burstCapacity t)"

text \<open>The elapsed time that \<open>refill\<close> computes, read as an integer.\<close>

definition elapsed_of :: "tokenBucket \<Rightarrow> int64 \<Rightarrow> int" where
  "elapsed_of b nowNS = sint (Unix nowNS - stamp b)"


section \<open>Arithmetic of the wrapping timestamp\<close>

lemma sint_Since: "sint (Since t u) = sint (t - u)"
  unfolding Since_def
  by (simp add: sint_up_scast is_up)

lemma centred_mod:
  fixes x M :: int
  assumes "0 < M"
  shows "(x + M) mod (2 * M) - M = (if x mod (2 * M) < M then x mod (2 * M) else x mod (2 * M) - 2 * M)"
proof -
  let ?d = "x mod (2 * M)"
  have d: "0 \<le> ?d" "?d < 2 * M" using assms by simp_all
  have e: "(x + M) mod (2 * M) = (?d + M) mod (2 * M)"
    by (simp add: mod_add_left_eq)
  show ?thesis
  proof (cases "?d < M")
    case True
    then have "(?d + M) mod (2 * M) = ?d + M" using d by simp
    with True e show ?thesis by simp
  next
    case False
    have "(?d + M) mod (2 * M) = (?d + M - 2 * M) mod (2 * M)"
      by (simp only: minus_mod_self2)
    also have "\<dots> = ?d + M - 2 * M"
      using False d by (intro mod_pos_pos_trivial) simp_all
    finally show ?thesis using False e by simp
  qed
qed

lemma sint_wd: "sint (a - b :: 56 word) = wrappingDifference (uint a) (uint b)"
proof -
  have "a - b = word_of_int (uint a - uint b)" by simp
  then have "sint (a - b) = (uint a - uint b + 2 ^ 55) mod 2 ^ 56 - 2 ^ 55"
    by (simp only: int_word_sint) simp
  also have "\<dots> = wrappingDifference (uint a) (uint b)"
    using centred_mod [of "2 ^ 55" "uint a - uint b"]
    by (simp add: wrappingDifference_def Let_def)
  finally show ?thesis .
qed

lemma uint_Unix: "uint (Unix ns) = uint ns mod 2 ^ 56"
  by (simp add: Unix_def unsigned_ucast_eq take_bit_eq_mod)

lemma elapsed_of_wd: "elapsed_of b nowNS = wrappingDifference (uint nowNS mod 2 ^ 56) (uint (stamp b))"
  by (simp add: elapsed_of_def sint_wd uint_Unix)

lemma elapsed_of_bounds: "- (2 ^ 55) \<le> elapsed_of b nowNS" "elapsed_of b nowNS < 2 ^ 55"
  using sint_ge [of "Unix nowNS - stamp b"] sint_lt [of "Unix nowNS - stamp b"]
  by (simp_all add: elapsed_of_def)

lemma sint_small64: "- (2 ^ 63) \<le> k \<Longrightarrow> k < 2 ^ 63 \<Longrightarrow> sint (word_of_int k :: 64 word) = k"
  by (simp add: sint_sbintrunc' signed_take_bit_int_eq_self)

lemma sdiv_pos: "0 < e \<Longrightarrow> 0 < r \<Longrightarrow> (e::int) sdiv r = e div r"
  by (simp add: signed_divide_int_def)

lemma smod_pos: "0 < e \<Longrightarrow> 0 < r \<Longrightarrow> (e::int) smod r = e mod r"
  by (simp add: signed_modulo_int_def)

lemma sdiv_neg: "0 < e \<Longrightarrow> r < 0 \<Longrightarrow> (e::int) sdiv r \<le> 0"
  by (simp add: signed_divide_int_def pos_imp_zdiv_nonneg_iff)

lemma div_neg: "0 < e \<Longrightarrow> r < 0 \<Longrightarrow> (e::int) div r \<le> 0"
  by (meson less_le_not_le neg_imp_zdiv_nonneg_iff nle_le)

lemma sint_go_div:
  assumes "0 < sint x" "sint x < 2 ^ 55"
  shows "sint (go_div x y) = sint x sdiv sint y"
proof -
  have "sint x sdiv sint y \<in> {- \<bar>sint x\<bar>..\<bar>sint x\<bar>}" by (rule sdiv_int_range)
  then have "- (2 ^ 63) \<le> sint x sdiv sint y" "sint x sdiv sint y < 2 ^ 63"
    using assms by auto
  then show ?thesis unfolding go_div_def by (rule sint_small64)
qed


lemma sint_ucast_8_64: "sint (ucast (a :: 8 word) :: 64 word) = uint a"
proof -
  have "uint a < 2 ^ 8" using uint_bounded [of a] by simp
  then have hi: "uint a < 2 ^ 63" by simp
  have lo: "- (2 ^ 63) \<le> uint a" by (rule order_trans [of _ 0]) simp_all
  have "signed_take_bit 63 (uint a) = uint a"
    using lo hi by (rule signed_take_bit_int_eq_self)
  then show ?thesis by (simp add: signed_ucast_eq)
qed

lemma ucast_woi_64_8: "(ucast (word_of_int k :: 64 word) :: 8 word) = word_of_int k"
  by (simp add: ucast_down_wi is_down)

lemma ucast_woi_64_56: "(ucast (word_of_int k :: 64 word) :: 56 word) = word_of_int k"
  by (simp add: ucast_down_wi is_down)

lemma uint_sub_le: "(a :: 8 word) \<le> c \<Longrightarrow> uint (c - a) = uint c - uint a"
  using uint_minus_simple_alt by blast

lemma woi_eq_8: 
  assumes "0 \<le> k" "k < 256" 
  shows "((word_of_int k :: 8 word) = a) = (k = uint a)"
proof
  assume "(word_of_int k :: 8 word) = a"
  then have "uint a = uint (word_of_int k :: 8 word)" by simp
  also have "\<dots> = k" using assms by (simp add: uint_word_of_int)
  finally show "k = uint a" by simp
next
  assume "k = uint a"
  then show "(word_of_int k :: 8 word) = a" by simp
qed

lemma Unix_minus_stamp: "Unix nowNS = stamp b + word_of_int (elapsed_of b nowNS)"
  by (simp add: elapsed_of_def)

lemma refill_eq_spec:
  assumes lv: "level b \<le> cap" and rt: "rate \<noteq> 0 \<or> elapsed_of b nowNS \<le> 0"
  shows "refill b nowNS rate cap = Inr (refill_spec b nowNS rate cap)"
proof -
  let ?e = "elapsed_of b nowNS"
  let ?r = "sint rate"
  let ?el = "Since (Unix nowNS) (stamp b)"
  let ?new = "min (uint cap) (uint (level b) + ?e div ?r)"
  let ?lvl = "if go_div ?el rate <s ucast (cap - level b)
              then level b + ucast (go_div ?el rate) else cap"
  have el: "sint ?el = ?e"
    by (simp add: sint_Since elapsed_of_def)
  have wd: "wrappingDifference (uint nowNS mod 2 ^ 56) (uint (stamp b)) = ?e"
    by (simp add: elapsed_of_wd)
  have spec: "refill_spec b nowNS rate cap =
       (if ?e \<le> 0 then b
        else if ?e div ?r \<le> 0 then b
        else if ?new \<noteq> uint (level b)
             then b\<lparr>level := word_of_int ?new,
                    stamp := word_of_int (uint (stamp b) + (?e - ?e mod ?r))\<rparr>
             else b)"
    by (simp only: refill_spec_def Let_def wd)
  have code: "refill b nowNS rate cap =
       (if ?e \<le> 0 then Inr b
        else if rate = 0 then Inl DivideByZero
        else if sint (go_div ?el rate) \<le> 0 then Inr b
        else if level b \<noteq> ?lvl
             then Inr (b\<lparr>stamp := Sub (Unix nowNS) (go_rem ?el rate), level := ?lvl\<rparr>)
             else Inr b)"
    by (simp only: refill_def Let_def word_sle_eq el sint_0)
  show ?thesis
  proof (cases "?e \<le> 0")
    case True
    then show ?thesis by (simp add: code spec)
  next
    case False
    then have epos: "0 < ?e" by simp
    with rt have r0: "rate \<noteq> 0" by simp
    then have r0': "?r \<noteq> 0" by (simp add: signed_eq_0_iff)
    have tk: "sint (go_div ?el rate) = ?e sdiv ?r"
      using sint_go_div [of ?el rate] epos elapsed_of_bounds(2) [of b nowNS] by (simp add: el)
    show ?thesis
    proof (cases "?r < 0")
      case True
      have "?e sdiv ?r \<le> 0" "?e div ?r \<le> 0"
        using epos True by (simp_all add: sdiv_neg div_neg)
      then show ?thesis using False r0
        by (simp add: code spec tk)
    next
      case rneg: False
      with r0' have rpos: "0 < ?r" by simp
      let ?k = "?e div ?r"
      have k: "?e sdiv ?r = ?k" using epos rpos by (rule sdiv_pos)
      have m: "?e smod ?r = ?e mod ?r" using epos rpos by (rule smod_pos)
      show ?thesis
      proof (cases "?k \<le> 0")
        case True
        then show ?thesis using False r0
          by (simp add: code spec tk k)
      next
        case kpos: False
        have cmp: "(go_div ?el rate <s ucast (cap - level b)) = (?k < uint cap - uint (level b))"
          by (simp add: word_sless_alt tk k sint_ucast_8_64 uint_sub_le [OF lv])
        have capb: "uint cap < 256" using uint_bounded [of cap] by simp
        have lvl: "?lvl = word_of_int ?new"
        proof (cases "?k < uint cap - uint (level b)")
          case True
          then have "?new = uint (level b) + ?k" by simp
          moreover have "level b + ucast (go_div ?el rate) = word_of_int (uint (level b) + ?k)"
            by (simp add: go_div_def ucast_woi_64_8 el k)
          ultimately show ?thesis using True cmp by simp
        next
          case False
          then have "?new = uint cap" by simp
          then show ?thesis using False cmp by simp
        qed
        have newb: "0 \<le> ?new" "?new < 256" using capb kpos by simp_all
        have ne: "(level b \<noteq> ?lvl) = (?new \<noteq> uint (level b))"
          using woi_eq_8 [OF newb, of "level b"] by (simp only: lvl) metis
        have "Sub (Unix nowNS) (go_rem ?el rate) = Unix nowNS - word_of_int (?e mod ?r)"
          by (simp add: Sub_def go_rem_def ucast_woi_64_56 el m)
        also have "\<dots> = stamp b + word_of_int ?e - word_of_int (?e mod ?r)"
          using Unix_minus_stamp [of nowNS b] by simp
        also have "\<dots> = word_of_int (uint (stamp b) + (?e - ?e mod ?r))"
          by simp
        finally have st: "Sub (Unix nowNS) (go_rem ?el rate)
                  = word_of_int (uint (stamp b) + (?e - ?e mod ?r))" .
        have code': "refill b nowNS rate cap =
             (if level b \<noteq> ?lvl
              then Inr (b\<lparr>stamp := Sub (Unix nowNS) (go_rem ?el rate), level := ?lvl\<rparr>)
              else Inr b)"
          using False r0 kpos by (simp add: code tk k)
        have spec': "refill_spec b nowNS rate cap =
             (if ?new \<noteq> uint (level b)
              then b\<lparr>level := word_of_int ?new,
                     stamp := word_of_int (uint (stamp b) + (?e - ?e mod ?r))\<rparr>
              else b)"
          using False kpos by (simp add: spec)
        show ?thesis
        proof (cases "?new = uint (level b)")
          case True
          with ne have "level b = ?lvl" by blast
          with True show ?thesis by (simp only: code' spec') simp
        next
          case False
          with ne have "level b \<noteq> ?lvl" by blast
          with False have "refill b nowNS rate cap
                = Inr (b\<lparr>stamp := Sub (Unix nowNS) (go_rem ?el rate), level := ?lvl\<rparr>)"
            and "refill_spec b nowNS rate cap
                = b\<lparr>level := word_of_int ?new,
                     stamp := word_of_int (uint (stamp b) + (?e - ?e mod ?r))\<rparr>"
            by (simp_all only: code' spec' if_True if_False not_False_eq_True)
          then show ?thesis by (simp only: st lvl) simp
        qed
      qed
    qed
  qed
qed


lemma uint_woi_56: "0 \<le> x \<Longrightarrow> x < 2 ^ 56 \<Longrightarrow> uint (word_of_int x :: 56 word) = x"
  by (simp add: uint_word_of_int)

lemma elapsed_pos_step:
  assumes "0 < e" "0 < (e::int) div r"
  shows "0 < r" "r \<le> e - e mod r" "e - e mod r \<le> e"
proof -
  show r: "0 < r" using assms
    by (metis div_neg not_less_iff_gr_or_eq not_le div_by_0)
  have "e - e mod r = r * (e div r)" by (simp add: minus_mod_eq_mult_div)
  moreover have "r * 1 \<le> r * (e div r)" using r assms(2) by (intro mult_left_mono) simp_all
  ultimately show "r \<le> e - e mod r" by simp
  show "e - e mod r \<le> e" using r by simp
qed

lemma refill_spec_cases:
  "refill_spec b nowNS rate cap =
       (if elapsed_of b nowNS \<le> 0 then b
        else if elapsed_of b nowNS div sint rate \<le> 0 then b
        else if min (uint cap) (uint (level b) + elapsed_of b nowNS div sint rate) \<noteq> uint (level b)
             then b\<lparr>level := word_of_int (min (uint cap) (uint (level b) + elapsed_of b nowNS div sint rate)),
                    stamp := word_of_int (uint (stamp b) + (elapsed_of b nowNS - elapsed_of b nowNS mod sint rate))\<rparr>
             else b)"
  by (simp only: refill_spec_def Let_def elapsed_of_wd)

lemma refill_spec_level_stamp:
  "(level (refill_spec b nowNS rate cap) \<noteq> level b) = (stamp (refill_spec b nowNS rate cap) \<noteq> stamp b)"
proof -
  let ?e = "elapsed_of b nowNS"
  let ?r = "sint rate"
  let ?new = "min (uint cap) (uint (level b) + ?e div ?r)"
  show ?thesis
  proof (cases "0 < ?e \<and> 0 < ?e div ?r \<and> ?new \<noteq> uint (level b)")
    case False
    then have "refill_spec b nowNS rate cap = b"
      by (auto simp add: refill_spec_cases)
    then show ?thesis by simp
  next
    case True
    then have eq: "refill_spec b nowNS rate cap =
       b\<lparr>level := word_of_int ?new, stamp := word_of_int (uint (stamp b) + (?e - ?e mod ?r))\<rparr>"
      by (simp add: refill_spec_cases)
    have capb: "uint cap < 256" using uint_bounded [of cap] by simp
    have newb: "0 \<le> ?new" "?new < 256" using capb True by simp_all
    have l: "word_of_int ?new \<noteq> level b"
      using woi_eq_8 [OF newb, of "level b"] True by simp
    let ?d = "?e - ?e mod ?r"
    have p: "(2::int) ^ 55 < 2 ^ 56" by simp
    have d1: "0 < ?d"
      using elapsed_pos_step(1,2) [of ?e ?r] True by linarith
    have d2: "?d < 2 ^ 56"
      using elapsed_pos_step(3) [of ?e ?r] True elapsed_of_bounds(2) [of b nowNS] p by linarith
    note d = d1 d2
    have "uint (word_of_int ?d :: 56 word) = ?d"
      by (rule uint_woi_56) (use d in simp_all)
    with d have "(word_of_int ?d :: 56 word) \<noteq> 0" by auto
    then have s: "word_of_int (uint (stamp b) + ?d) \<noteq> stamp b" by simp
    show ?thesis using l s by (simp add: eq)
  qed
qed

lemma refill_spec_stamp_now:
  assumes "level (refill_spec b nowNS rate cap) \<noteq> level b"
  shows "stamp (refill_spec b nowNS rate cap)
    = Unix nowNS - word_of_int (elapsed_of b nowNS mod sint rate)"
proof -
  let ?e = "elapsed_of b nowNS"
  let ?r = "sint rate"
  let ?new = "min (uint cap) (uint (level b) + ?e div ?r)"
  have "0 < ?e \<and> 0 < ?e div ?r \<and> ?new \<noteq> uint (level b)"
  proof (rule ccontr)
    assume "\<not> ?thesis"
    then have "refill_spec b nowNS rate cap = b"
      by (auto simp add: refill_spec_cases)
    with assms show False by simp
  qed
  then have "stamp (refill_spec b nowNS rate cap) = word_of_int (uint (stamp b) + (?e - ?e mod ?r))"
    by (simp add: refill_spec_cases)
  also have "\<dots> = stamp b + word_of_int ?e - word_of_int (?e mod ?r)" by simp
  also have "\<dots> = Unix nowNS - word_of_int (?e mod ?r)"
    using Unix_minus_stamp [of nowNS b] by simp
  finally show ?thesis .
qed


section \<open>Packing, hashing and the constructor's checks\<close>

lemma Unpack_Pack: "Unpack (Pack t v) = (v, t)"
  unfolding Unpack_def Pack_def
  apply (simp, intro conjI; rule bit_word_eqI)
   apply (auto simp add: bit_simps dest: bit_imp_le_length)
  done

lemma unpack_packed: "unpack (packed b) = b"
  by (simp add: unpack_def packed_def Unpack_Pack newTokenBucket_def)

lemma index_loop_foldl: "index_loop h ident = foldl (\<lambda>h b. (h XOR ucast b) * 1099511628211) h ident"
  by (induction ident arbitrary: h) simp_all

lemma and_mask_lt:
  fixes h n :: "64 word"
  assumes "n \<noteq> 0"
  shows "h AND (n - 1) < n"
  using assms less_eq_dec_iff word_and_le1 by blast

lemma set_each_append:
  "set_each a (xs @ ys) v = (case set_each a xs v of Inl e \<Rightarrow> Inl e | Inr a' \<Rightarrow> set_each a' ys v)"
  by (induction xs arbitrary: a) (simp_all split: sum.splits)

lemma sint_of_nat_64: 
  assumes "k < 2 ^ 63" shows "sint (word_of_nat k :: 64 word) = int k"
proof -
  have "int k < 2 ^ 63" using assms by (metis of_nat_less_iff of_nat_numeral of_nat_power)
  moreover have "- (2 ^ 63) \<le> int k" by (rule order_trans [of _ 0]) simp_all
  ultimately have "sint (word_of_int (int k) :: 64 word) = int k" by (rule sint_small64[rotated])
  then show ?thesis by simp
qed

lemma set_each_upt:
  assumes "k \<le> length a" "length a < 2 ^ 63"
  shows "set_each a [0..<k] v = Inr (replicate k v @ drop k a)"
  using assms
proof (induction k)
  case 0
  then show ?case by simp
next
  case (Suc k)
  then have k: "k < length a" "k < 2 ^ 63" by simp_all
  have ir: "in_range (replicate k v @ drop k a) (word_of_nat k)"
    using k by (simp add: in_range_def sint_of_nat_64)
  have upd: "(replicate k v @ drop k a)[k := v] = replicate (Suc k) v @ drop (Suc k) a"
  proof -
    have "drop k a = a ! k # drop (Suc k) a" using k by (simp add: Cons_nth_drop_Suc)
    then have "(replicate k v @ drop k a)[k := v] = replicate k v @ (v # drop (Suc k) a)"
      by (simp add: list_update_append)
    also have "\<dots> = replicate (Suc k) v @ drop (Suc k) a"
      by (simp add: replicate_append_same)
    finally show ?thesis .
  qed
  show ?case using Suc.IH k Suc.prems ir upd
    by (simp add: set_each_append Set_slot_def sint_of_nat_64)
qed

lemma nat_and_pred_pow2:
  fixes m :: nat
  shows "0 < m \<Longrightarrow> m AND (m - 1) = 0 \<Longrightarrow> \<exists>k. m = 2 ^ k"
proof (induction m rule: nat_bit_induct)
  case zero
  then show ?case by simp
next
  case (even j)
  have "2 * j - 1 = 2 * (j - 1) + 1" using even.hyps by simp
  then have "(2 * j) AND (2 * j - 1) = 2 * (j AND (j - 1))"
    by (subst and_nat_rec) simp
  with even.prems have "j AND (j - 1) = 0" by simp
  with even.IH even.hyps obtain k where "j = 2 ^ k" by auto
  then have "2 * j = 2 ^ Suc k" by simp
  then show ?case by blast
next
  case (odd j)
  have "(2 * j + 1) AND (2 * j + 1 - 1) = 2 * j"
    by (subst and_nat_rec) simp
  with odd.prems have "j = 0" by simp
  then have "2 * j + 1 = 2 ^ 0" by simp
  then show ?case by (metis Suc_eq_plus1)
qed

lemma pow2_and_pred:
  assumes "k < 64"
  shows "(2 ^ k :: 64 word) AND (2 ^ k - 1) = 0"
proof -
  have "(2 ^ k :: 64 word) AND mask k = 0"
    by (rule bit_word_eqI) (auto simp add: bit_and_iff bit_mask_iff bit_exp_iff)
  then show ?thesis by (simp only: mask_eq_decr_exp)
qed

lemma word_pow2_iff:
  fixes n :: "64 word"
  shows "(n \<noteq> 0 \<and> n AND (n - 1) = 0) = (\<exists>k \<in> {0..<64}. n = 2 ^ k)"
proof
  assume a: "n \<noteq> 0 \<and> n AND (n - 1) = 0"
  then have pos: "0 < unat n" by (simp add: unat_gt_0)
  have "unat (n AND (n - 1)) = unat n AND unat (n - 1)" 
    by (simp add: unsigned_and_eq)
  also have "unat (n - 1) = unat n - 1" using a by (simp add: unat_minus_one)
  finally have "unat n AND (unat n - 1) = 0" using a by simp
  with pos obtain k where k: "unat n = 2 ^ k" using nat_and_pred_pow2 by blast
  have "unat n < 2 ^ 64" using unsigned_less [of n] by simp
  with k have "(2::nat) ^ k < 2 ^ 64" by simp
  then have "k < 64" by (rule power_less_imp_less_exp [rotated]) simp
  moreover have "n = 2 ^ k" using k
    by (metis of_nat_numeral of_nat_power of_nat_unat word_of_int_2p word_of_int_uint)
  ultimately show "\<exists>k \<in> {0..<64}. n = 2 ^ k" by auto
next
  assume "\<exists>k \<in> {0..<64}. n = 2 ^ k"
  then obtain k where k: "k < 64" "n = 2 ^ k" by auto
  then have "n \<noteq> 0" by simp
  then show "n \<noteq> 0 \<and> n AND (n - 1) = 0" using k pow2_and_pred by simp
qed

section \<open>The constructor, the calls and their invariants\<close>

lemma uint_eq_sint_64:
  assumes "0 \<le> sint (n :: 64 word)"
  shows "uint n = sint n"
proof -
  have "sint n < 2 ^ 63" using sint_lt [of n] by simp
  then have "sint n < 2 ^ 64" by simp
  with assms have "take_bit 64 (sint n) = sint n" by (intro take_bit_int_eq_self)
  then show ?thesis using uint_sint [of n] by simp
qed

lemma nat_sint_unat: "0 \<le> sint (n :: 64 word) \<Longrightarrow> nat (sint n) = unat n"
  using uint_eq_sint_64 [of n] unat_eq_nat_uint [of n] by (simp only:)

lemma unat_lt_sint_pos:
  assumes "0 < sint (n :: 64 word)"
  shows "unat n < 2 ^ 63"
proof -
  have "sint n < 2 ^ 63" using sint_lt [of n] by simp
  then have "nat (sint n) < nat (2 ^ 63)" using assms by (intro nat_mono_iff [THEN iffD2]) simp_all
  then show ?thesis using nat_sint_unat [of n] assms by simp
qed

lemma New_invalid:
  "\<not> (n \<noteq> 0 \<and> n AND (n - 1) = 0) \<Longrightarrow> NewTokenBucketLimiter n cap nanos now = Inl InvalidConfiguration"
  by (simp add: NewTokenBucketLimiter_def)

lemma New_negative:
  "n \<noteq> 0 \<Longrightarrow> n AND (n - 1) = 0 \<Longrightarrow> sint n < 0 \<Longrightarrow> NewTokenBucketLimiter n cap nanos now = Inl NegativeLength"
  by (simp add: NewTokenBucketLimiter_def newAtomicSliceUint64_def)

lemma New_ok:
  assumes "n \<noteq> 0" "n AND (n - 1) = 0" "0 < sint n"
  shows "NewTokenBucketLimiter n cap nanos now =
    Inr \<lparr>buckets = replicate (unat n) (packed (newTokenBucket cap (Unix now))),
         bucketMask = n - 1, burstCapacity = cap, refillIntervalNanos = nanos, numBuckets = n\<rparr>"
proof -
  have l: "nat (sint n) = unat n" using assms(3) by (simp add: nat_sint_unat)
  have b: "unat n < 2 ^ 63" using assms(3) by (rule unat_lt_sint_pos)
  have "set_each (replicate (unat n) 0) [0..<unat n] v = Inr (replicate (unat n) v)" for v
    using set_each_upt [of "unat n" "replicate (unat n) 0" v] b by simp
  then show ?thesis using assms l
    by (simp add: NewTokenBucketLimiter_def newAtomicSliceUint64_def Let_def)
qed

lemma takeTokenInner_once:
  "takeTokenInner t idx rate now =
     Some (case Get (buckets t) idx of
        Inl e \<Rightarrow> (Inl e, t)
      | Inr existing \<Rightarrow>
          (case refill (unpack existing) now rate (burstCapacity t) of
             Inl e \<Rightarrow> (Inl e, t)
           | Inr refilled \<Rightarrow>
               (if fst (take_bucket refilled) \<noteq> unpack existing
                then (Inr (snd (take_bucket refilled)),
                      t\<lparr>buckets := (buckets t)[nat (sint idx) := packed (fst (take_bucket refilled))]\<rparr>)
                else (Inr (snd (take_bucket refilled)), t))))"
  by (subst takeTokenInner.simps)
     (simp add: Get_def CompareAndSwap_def split: sum.splits prod.splits)


lemma sint_unat_small: 
  assumes "unat (i :: 64 word) < 2 ^ 63" shows "sint i = int (unat i)"
  using sint_of_nat_64 [OF assms] by simp

lemma index_spec: "index t ident = FNV1a64 ident AND bucketMask t"
  by (simp add: index_def FNV1a64_def index_loop_foldl)

lemma index_bounds:
  assumes "well_formed t"
  shows "unat (index t ident) < unat (numBuckets t)"
    and "sint (index t ident) = int (unat (index t ident))"
proof -
  have n: "0 < sint (numBuckets t)" "bucketMask t = numBuckets t - 1"
    using assms by (simp_all add: well_formed_def)
  then have "numBuckets t \<noteq> 0" by auto
  then have "index t ident < numBuckets t"
    unfolding index_def n(2) by (rule and_mask_lt)
  then show lt: "unat (index t ident) < unat (numBuckets t)"
    by (simp add: word_less_nat_alt)
  have "unat (numBuckets t) < 2 ^ 63" using n(1) by (rule unat_lt_sint_pos)
  with lt have "unat (index t ident) < 2 ^ 63" by simp
  then show "sint (index t ident) = int (unat (index t ident))" by (rule sint_unat_small)
qed

lemma index_in_range:
  assumes "well_formed t"
  shows "in_range (buckets t) (index t ident)"
  using index_bounds [OF assms, of ident] assms
  by (simp add: in_range_def well_formed_def)

lemma uint_woi_8: "0 \<le> k \<Longrightarrow> k < 256 \<Longrightarrow> uint (word_of_int k :: 8 word) = k"
  by (simp add: uint_word_of_int)

lemma refill_total: "rate \<noteq> 0 \<Longrightarrow> \<exists>b'. refill b nowNS rate cap = Inr b'"
  by (simp add: refill_def Let_def)

lemma refill_level_le:
  assumes "level b \<le> cap" "refill b nowNS rate cap = Inr b'"
  shows "level b' \<le> cap"
proof -
  have "rate \<noteq> 0 \<or> elapsed_of b nowNS \<le> 0"
    using assms(2) 
    by (auto simp add: refill_def Let_def word_sle_eq sint_Since elapsed_of_def split: if_splits)
  with assms have b': "b' = refill_spec b nowNS rate cap"
    using refill_eq_spec [of b cap rate nowNS] by simp
  let ?new = "min (uint cap) (uint (level b) + elapsed_of b nowNS div sint rate)"
  have "level (refill_spec b nowNS rate cap) = level b
      \<or> (level (refill_spec b nowNS rate cap) = word_of_int ?new \<and> 0 < elapsed_of b nowNS div sint rate)"
    by (simp add: refill_spec_cases)
  then show ?thesis
  proof
    assume "level (refill_spec b nowNS rate cap) = level b"
    with assms(1) b' show ?thesis by simp
  next
    assume a: "level (refill_spec b nowNS rate cap) = word_of_int ?new \<and> 0 < elapsed_of b nowNS div sint rate"
    have capb: "uint cap < 256" using uint_bounded [of cap] by simp
    have newb: "0 \<le> ?new" "?new < 256" "?new \<le> uint cap" using capb a by simp_all
    have "uint (word_of_int ?new :: 8 word) = ?new"
      using newb(1,2) by (rule uint_woi_8)
    with newb(3) have "(word_of_int ?new :: 8 word) \<le> cap" by (simp only: word_le_def)
    with a b' show ?thesis by simp
  qed
qed

lemma word_pred_le: "(w :: 8 word) \<noteq> 0 \<Longrightarrow> w - 1 \<le> w"
  using less_eq_dec_triv_imp [of w] by (metis linorder_le_cases less_eq_dec_self_iff_eq)

lemma take_bucket_level_le: "level (fst (take_bucket b)) \<le> level b"
  by (simp add: take_bucket_def word_pred_le word_greater_zero_iff)

lemma Check_state: "snd (Check t now ident) = t"
  by (simp add: Check_def checkInner_def split: sum.splits)


lemma TakeToken_cases [case_names panic same swapped]:
  assumes "\<And>e. TakeToken t now ident = Some (Inl e, t) \<Longrightarrow> P"
    and "\<And>taken. TakeToken t now ident = Some (Inr taken, t) \<Longrightarrow> P"
    and "\<And>refilled. in_range (buckets t) (index t ident) \<Longrightarrow>
      refill (unpack (buckets t ! nat (sint (index t ident)))) now (refillIntervalNanos t)
         (burstCapacity t) = Inr refilled \<Longrightarrow>
      TakeToken t now ident =
         Some (Inr (snd (take_bucket refilled)),
               t\<lparr>buckets := (buckets t)[nat (sint (index t ident)) := packed (fst (take_bucket refilled))]\<rparr>)
      \<Longrightarrow> P"
  shows P
proof (cases "in_range (buckets t) (index t ident)")
  case False
  then have "TakeToken t now ident = Some (Inl IndexOutOfRange, t)"
    by (simp add: TakeToken_def takeTokenInner_once Get_def)
  then show P by (rule assms(1))
next
  case True
  let ?w = "buckets t ! nat (sint (index t ident))"
  show P
  proof (cases "refill (unpack ?w) now (refillIntervalNanos t) (burstCapacity t)")
    case (Inl e)
    with True have "TakeToken t now ident = Some (Inl e, t)"
      by (simp add: TakeToken_def takeTokenInner_once Get_def)
    then show P by (rule assms(1))
  next
    case (Inr refilled)
    show P
    proof (cases "fst (take_bucket refilled) \<noteq> unpack ?w")
      case False
      with True Inr have "TakeToken t now ident = Some (Inr (snd (take_bucket refilled)), t)"
        by (simp add: TakeToken_def takeTokenInner_once Get_def)
      then show P by (rule assms(2))
    next
      case ne: True
      with True Inr have "TakeToken t now ident =
         Some (Inr (snd (take_bucket refilled)),
               t\<lparr>buckets := (buckets t)[nat (sint (index t ident)) := packed (fst (take_bucket refilled))]\<rparr>)"
        by (simp add: TakeToken_def takeTokenInner_once Get_def)
      with True Inr show P by (rule assms(3))
    qed
  qed
qed

lemma TakeToken_config:
  assumes "TakeToken t now ident = Some (r, t')"
  shows "bucketMask t' = bucketMask t \<and> numBuckets t' = numBuckets t
    \<and> burstCapacity t' = burstCapacity t \<and> refillIntervalNanos t' = refillIntervalNanos t
    \<and> length (buckets t') = length (buckets t)"
proof (rule TakeToken_cases [of t now ident])
  fix e assume "TakeToken t now ident = Some (Inl e, t)"
  with assms show ?thesis by simp
next
  fix taken assume "TakeToken t now ident = Some (Inr taken, t)"
  with assms show ?thesis by simp
next
  fix refilled
  assume sw: "in_range (buckets t) (index t ident)"
    "refill (unpack (buckets t ! nat (sint (index t ident)))) now (refillIntervalNanos t)
         (burstCapacity t) = Inr refilled"
    "TakeToken t now ident =
         Some (Inr (snd (take_bucket refilled)),
               t\<lparr>buckets := (buckets t)[nat (sint (index t ident)) := packed (fst (take_bucket refilled))]\<rparr>)"
  with assms show ?thesis by auto
qed

lemma TakeToken_levels_within:
  assumes "levels_within t" "TakeToken t now ident = Some (r, t')"
  shows "levels_within t'"
proof (rule TakeToken_cases [of t now ident])
  fix e assume "TakeToken t now ident = Some (Inl e, t)"
  with assms show ?thesis by simp
next
  fix taken assume "TakeToken t now ident = Some (Inr taken, t)"
  with assms show ?thesis by simp
next
  fix refilled
  assume sw: "in_range (buckets t) (index t ident)"
    "refill (unpack (buckets t ! nat (sint (index t ident)))) now (refillIntervalNanos t)
         (burstCapacity t) = Inr refilled"
    "TakeToken t now ident =
         Some (Inr (snd (take_bucket refilled)),
               t\<lparr>buckets := (buckets t)[nat (sint (index t ident)) := packed (fst (take_bucket refilled))]\<rparr>)"
  let ?i = "nat (sint (index t ident))"
  let ?w = "packed (fst (take_bucket refilled))"
  have "?i < length (buckets t)" using sw(1) by (simp add: in_range_def)
  then have "buckets t ! ?i \<in> set (buckets t)" by simp
  then have "level (unpack (buckets t ! ?i)) \<le> burstCapacity t"
    using assms(1) by (simp add: levels_within_def)
  then have "level refilled \<le> burstCapacity t"
    using sw(2) by (rule refill_level_le)
  then have "level (unpack ?w) \<le> burstCapacity t"
    using take_bucket_level_le [of refilled] by (simp add: unpack_packed)
  moreover have "set ((buckets t)[?i := ?w]) \<subseteq> insert ?w (set (buckets t))"
    by (rule set_update_subset_insert)
  ultimately have "levels_within (t\<lparr>buckets := (buckets t)[?i := ?w]\<rparr>)"
    using assms(1) by (auto simp add: levels_within_def)
  with sw(3) assms(2) show ?thesis by simp
qed

lemma do_call_total: "\<exists>r t'. do_call t c = Some (r, t')"
proof (cases c)
  case (Pair now k)
  show ?thesis
  proof (cases k)
    case (CheckCall i)
    with Pair show ?thesis by (cases "Check t now i") simp
  next
    case (TakeTokenCall i)
    have "\<exists>r t'. TakeToken t now i = Some (r, t')"
      by (rule TakeToken_cases [of t now i]) blast+
    with Pair TakeTokenCall show ?thesis by simp
  qed
qed

lemma do_call_config:
  assumes "do_call t c = Some (r, t')"
  shows "bucketMask t' = bucketMask t \<and> numBuckets t' = numBuckets t
    \<and> burstCapacity t' = burstCapacity t \<and> refillIntervalNanos t' = refillIntervalNanos t
    \<and> length (buckets t') = length (buckets t)"
proof (cases c)
  case (Pair now k)
  show ?thesis
  proof (cases k)
    case (CheckCall i)
    with Pair assms have "t' = snd (Check t now i)" by (metis do_call.simps(1) option.inject snd_conv)
    then show ?thesis by (simp add: Check_state)
  next
    case (TakeTokenCall i)
    with Pair assms show ?thesis using TakeToken_config [of t now i r t'] by simp
  qed
qed

lemma do_call_levels_within:
  assumes "levels_within t" "do_call t c = Some (r, t')"
  shows "levels_within t'"
proof (cases c)
  case (Pair now k)
  show ?thesis
  proof (cases k)
    case (CheckCall i)
    with Pair assms have "t' = snd (Check t now i)" by (metis do_call.simps(1) option.inject snd_conv)
    with assms(1) show ?thesis by (simp add: Check_state)
  next
    case (TakeTokenCall i)
    with Pair assms show ?thesis using TakeToken_levels_within [of t now i r t'] by simp
  qed
qed

lemma run_calls_total: "\<exists>rs t'. run_calls t calls = Some (rs, t') \<and> length rs = length calls"
proof (induction calls arbitrary: t)
  case Nil
  show ?case by simp
next
  case (Cons c cs)
  obtain r t1 where c: "do_call t c = Some (r, t1)" using do_call_total by blast
  obtain rs t2 where "run_calls t1 cs = Some (rs, t2)" "length rs = length cs"
    using Cons.IH by blast
  with c show ?case by simp
qed

lemma run_calls_config:
  assumes "run_calls t calls = Some (rs, t')"
  shows "bucketMask t' = bucketMask t \<and> numBuckets t' = numBuckets t
    \<and> burstCapacity t' = burstCapacity t \<and> refillIntervalNanos t' = refillIntervalNanos t
    \<and> length (buckets t') = length (buckets t)"
  using assms
proof (induction calls arbitrary: t rs)
  case Nil
  then show ?case by simp
next
  case (Cons c cs)
  then obtain r t1 rs1 where c: "do_call t c = Some (r, t1)" "run_calls t1 cs = Some (rs1, t')"
    by (auto split: option.splits)
  from Cons.IH [OF c(2)] do_call_config [OF c(1)] show ?case by simp
qed

lemma run_calls_levels_within:
  assumes "levels_within t" "run_calls t calls = Some (rs, t')"
  shows "levels_within t'"
  using assms
proof (induction calls arbitrary: t rs)
  case Nil
  then show ?case by simp
next
  case (Cons c cs)
  then obtain r t1 rs1 where c: "do_call t c = Some (r, t1)" "run_calls t1 cs = Some (rs1, t')"
    by (auto split: option.splits)
  from do_call_levels_within [OF Cons.prems(1) c(1)] have "levels_within t1" .
  then show ?case using c(2) by (rule Cons.IH)
qed

lemma New_cases:
  assumes "NewTokenBucketLimiter n cap nanos now = Inr t"
  shows "n \<noteq> 0" "n AND (n - 1) = 0" "0 < sint n"
    "t = \<lparr>buckets = replicate (unat n) (packed (newTokenBucket cap (Unix now))),
         bucketMask = n - 1, burstCapacity = cap, refillIntervalNanos = nanos, numBuckets = n\<rparr>"
proof -
  show n: "n \<noteq> 0" "n AND (n - 1) = 0"
    using assms New_invalid [of n cap nanos now] by auto
  show s: "0 < sint n"
  proof (rule ccontr)
    assume "\<not> 0 < sint n"
    moreover have "sint n \<noteq> 0" using n(1) by (simp add: signed_eq_0_iff)
    ultimately have "sint n < 0" by simp
    with n assms New_negative [of n cap nanos now] show False by simp
  qed
  show "t = \<lparr>buckets = replicate (unat n) (packed (newTokenBucket cap (Unix now))),
         bucketMask = n - 1, burstCapacity = cap, refillIntervalNanos = nanos, numBuckets = n\<rparr>"
    using New_ok [OF n s, of cap nanos now] assms by simp
qed

lemma New_well_formed:
  assumes "NewTokenBucketLimiter n cap nanos now = Inr t"
  shows "well_formed t" "levels_within t"
  using New_cases [OF assms]
  by (simp_all add: well_formed_def levels_within_def unpack_packed newTokenBucket_def)

section \<open>Refill against the specification\<close>

text \<open>
  Claim C1 (amended). For every bucket whose level is at most the capacity, every
  current time and every rate that is nonzero (or with no positive elapsed time),
  \<open>refill\<close> returns normally and returns what section 4.2 of the specification
  computes: the bucket unchanged when the wraparound-safe elapsed time is \<open>\<le> 0\<close> or
  the floor of \<open>elapsed / rate\<close> is \<open>\<le> 0\<close>, otherwise the level
  \<open>min(capacity, level + floor(elapsed / rate))\<close>; the stamp moves exactly when the
  level changes, and then it is advanced by \<open>elapsed - (elapsed mod rate)\<close>, which is
  the current time minus the remainder.
\<close>

theorem refill_follows_spec:
  assumes "level b \<le> capacity"
    and "rate \<noteq> 0 \<or> wrappingDifference (uint nowNS mod 2 ^ 56) (uint (stamp b)) \<le> 0"
  shows "refill b nowNS rate capacity = Inr (refill_spec b nowNS rate capacity)
    \<and> ((level (refill_spec b nowNS rate capacity) \<noteq> level b)
         = (stamp (refill_spec b nowNS rate capacity) \<noteq> stamp b))
    \<and> (level (refill_spec b nowNS rate capacity) \<noteq> level b \<longrightarrow>
         stamp (refill_spec b nowNS rate capacity)
         = Unix nowNS
           - word_of_int (wrappingDifference (uint nowNS mod 2 ^ 56) (uint (stamp b)) mod sint rate))"
proof (intro conjI impI)
  show "refill b nowNS rate capacity = Inr (refill_spec b nowNS rate capacity)"
    using assms by (intro refill_eq_spec) (simp_all only: elapsed_of_wd)
  show "(level (refill_spec b nowNS rate capacity) \<noteq> level b)
         = (stamp (refill_spec b nowNS rate capacity) \<noteq> stamp b)"
    by (rule refill_spec_level_stamp)
  assume "level (refill_spec b nowNS rate capacity) \<noteq> level b"
  then have "stamp (refill_spec b nowNS rate capacity)
         = Unix nowNS - word_of_int (elapsed_of b nowNS mod sint rate)"
    by (rule refill_spec_stamp_now)
  then show "stamp (refill_spec b nowNS rate capacity)
         = Unix nowNS
           - word_of_int (wrappingDifference (uint nowNS mod 2 ^ 56) (uint (stamp b)) mod sint rate)"
    by (simp only: elapsed_of_wd)
qed

theorem refill_follows_spec_witness:
  "level \<lparr>level = 3, stamp = 7\<rparr> \<le> (25 :: uint8) \<and> (10 :: int64) \<noteq> 0
   \<and> refill \<lparr>level = 3, stamp = 7\<rparr> 100 10 25 = Inr \<lparr>level = 12, stamp = 97\<rparr>
   \<and> refill_spec \<lparr>level = 3, stamp = 7\<rparr> 100 10 25 = \<lparr>level = 12, stamp = 97\<rparr>"
proof -
  have s: "refill_spec \<lparr>level = 3, stamp = 7\<rparr> 100 10 25 = \<lparr>level = 12, stamp = 97\<rparr>"
    by code_simp
  have l: "level \<lparr>level = 3, stamp = 7\<rparr> \<le> (25 :: uint8)" by simp
  have r: "(10 :: int64) \<noteq> 0" by simp
  from refill_follows_spec [of "\<lparr>level = 3, stamp = 7\<rparr>" 25 10 100] l r s
  show ?thesis by simp
qed

text \<open>
  The claim as stated, for every bucket and every rate, fails: a bucket above the
  capacity is refilled past it (the \<open>uint8\<close> difference \<open>maxLevel - b.level\<close> wraps),
  where the specification takes the minimum with the capacity; and a zero rate with
  positive elapsed time reaches the division.
\<close>

theorem refill_follows_spec_counterexample:
  "refill \<lparr>level = 10, stamp = 0\<rparr> 1 1 5 = Inr \<lparr>level = 11, stamp = 1\<rparr>
   \<and> refill_spec \<lparr>level = 10, stamp = 0\<rparr> 1 1 5 = \<lparr>level = 5, stamp = 1\<rparr>
   \<and> refill \<lparr>level = 10, stamp = 0\<rparr> 1 1 5 \<noteq> Inr (refill_spec \<lparr>level = 10, stamp = 0\<rparr> 1 1 5)
   \<and> refill \<lparr>level = 0, stamp = 0\<rparr> 1 0 5 = Inl DivideByZero"
  by code_simp

section \<open>The capacity invariant\<close>

text \<open>
  Claim C2. Capacity invariant: from a bucket with \<open>0 \<le> level \<le> burstCapacity\<close>,
  \<open>refill\<close> with \<open>maxLevel = burstCapacity\<close> and \<open>take\<close> keep the level within
  \<open>[0, burstCapacity]\<close>; and from a limiter all of whose buckets are within the
  capacity, every sequence of \<open>Check\<close> and \<open>TakeToken\<close> calls returns and leaves every
  bucket's decoded level within \<open>[0, burstCapacity]\<close>. (A level is a \<open>uint8\<close>: it is
  never below zero.)
\<close>

theorem capacity_invariant:
  assumes "level b \<le> burstCapacity t" and "levels_within t"
  shows "(case refill b now rate (burstCapacity t) of
            Inl e \<Rightarrow> True | Inr b' \<Rightarrow> 0 \<le> unat (level b') \<and> level b' \<le> burstCapacity t)
    \<and> level (fst (take_bucket b)) \<le> burstCapacity t
    \<and> (\<exists>rs t'. run_calls t calls = Some (rs, t') \<and> length rs = length calls
          \<and> burstCapacity t' = burstCapacity t \<and> levels_within t')"
proof (intro conjI)
  show "case refill b now rate (burstCapacity t) of
            Inl e \<Rightarrow> True | Inr b' \<Rightarrow> 0 \<le> unat (level b') \<and> level b' \<le> burstCapacity t"
  proof (cases "refill b now rate (burstCapacity t)")
    case (Inl e)
    then show ?thesis by simp
  next
    case (Inr b')
    with assms(1) have "level b' \<le> burstCapacity t" by (rule refill_level_le)
    with Inr show ?thesis by simp
  qed
  show "level (fst (take_bucket b)) \<le> burstCapacity t"
    using take_bucket_level_le [of b] assms(1) by simp
  obtain rs t' where r: "run_calls t calls = Some (rs, t')" "length rs = length calls"
    using run_calls_total by blast
  from assms(2) r(1) have "levels_within t'" by (rule run_calls_levels_within)
  with r run_calls_config [OF r(1)]
  show "\<exists>rs t'. run_calls t calls = Some (rs, t') \<and> length rs = length calls
          \<and> burstCapacity t' = burstCapacity t \<and> levels_within t'"
    by simp
qed

theorem capacity_invariant_witness:
  "level \<lparr>level = 3, stamp = 7\<rparr>
     \<le> burstCapacity \<lparr>buckets = [360287970189639680], bucketMask = 0, burstCapacity = 5,
            refillIntervalNanos = 1000000000, numBuckets = 1\<rparr>
   \<and> levels_within \<lparr>buckets = [360287970189639680], bucketMask = 0, burstCapacity = 5,
            refillIntervalNanos = 1000000000, numBuckets = 1\<rparr>
   \<and> refill \<lparr>level = 3, stamp = 7\<rparr> 5000000007 1000000000 5 = Inr \<lparr>level = 5, stamp = 5000000007\<rparr>
   \<and> (\<exists>rs t'. run_calls \<lparr>buckets = [360287970189639680], bucketMask = 0, burstCapacity = 5,
            refillIntervalNanos = 1000000000, numBuckets = 1\<rparr>
            [(0, TakeTokenCall [120]), (5, CheckCall [120])] = Some (rs, t')
          \<and> levels_within t')"
proof -
  let ?t = "\<lparr>buckets = [360287970189639680], bucketMask = 0, burstCapacity = 5,
            refillIntervalNanos = 1000000000, numBuckets = 1\<rparr>"
  have h1: "level \<lparr>level = 3, stamp = 7\<rparr> \<le> burstCapacity ?t" by simp
  have h2: "levels_within ?t" by code_simp
  have h3: "refill \<lparr>level = 3, stamp = 7\<rparr> 5000000007 1000000000 5 = Inr \<lparr>level = 5, stamp = 5000000007\<rparr>"
    by code_simp
  from capacity_invariant [OF h1 h2, of 5000000007 1000000000 "[(0, TakeTokenCall [120]), (5, CheckCall [120])]"]
  have "\<exists>rs t'. run_calls ?t [(0, TakeTokenCall [120]), (5, CheckCall [120])] = Some (rs, t')
          \<and> levels_within t'" by blast
  with h1 h2 h3 show ?thesis by blast
qed

section \<open>Totality of the calls\<close>

text \<open>
  With a nonzero interval, \<open>Check\<close> and \<open>TakeToken\<close> on a constructed limiter return
  a boolean at every clock reading and for every identifier.
\<close>

lemma calls_return_for_nonzero_rate:
  assumes "well_formed t" "refillIntervalNanos t \<noteq> 0"
  shows "\<exists>r. fst (Check t now ident) = Inr r"
    and "\<exists>r t'. TakeToken t now ident = Some (Inr r, t')"
proof -
  have ir: "in_range (buckets t) (index t ident)" using assms(1) by (rule index_in_range)
  obtain b' where b': "refill (unpack (buckets t ! nat (sint (index t ident)))) now
      (refillIntervalNanos t) (burstCapacity t) = Inr b'"
    using refill_total [OF assms(2)] by blast
  show "\<exists>r. fst (Check t now ident) = Inr r"
    using ir b' by (simp add: Check_def checkInner_def Get_def)
  show "\<exists>r t'. TakeToken t now ident = Some (Inr r, t')"
    using ir b' by (simp add: TakeToken_def takeTokenInner_once Get_def)
qed

text \<open>
  Claim C3. \<open>Check\<close> and \<open>TakeToken\<close> never fail, also when the derived
  \<open>refillIntervalNanos\<close> is zero. The code at such a limiter: constructed at clock 0
  with interval 0, a call at clock 1 reaches \<open>elapsed / rate\<close> in \<open>refill\<close> with
  \<open>rate = 0\<close>, which is Go's run-time panic for an integer division by zero.
\<close>

theorem zero_rate_division_panics:
  "NewTokenBucketLimiter 1 5 0 0
     = Inr \<lparr>buckets = [360287970189639680], bucketMask = 0, burstCapacity = 5,
            refillIntervalNanos = 0, numBuckets = 1\<rparr>
   \<and> TakeToken \<lparr>buckets = [360287970189639680], bucketMask = 0, burstCapacity = 5,
            refillIntervalNanos = 0, numBuckets = 1\<rparr> 1 [120]
     = Some (Inl DivideByZero, \<lparr>buckets = [360287970189639680], bucketMask = 0, burstCapacity = 5,
            refillIntervalNanos = 0, numBuckets = 1\<rparr>)
   \<and> fst (Check \<lparr>buckets = [360287970189639680], bucketMask = 0, burstCapacity = 5,
            refillIntervalNanos = 0, numBuckets = 1\<rparr> 1 [120]) = Inl DivideByZero"
  by code_simp

section \<open>Construction\<close>

lemma sint_pow2_pos:
  assumes "k < 63" shows "0 < sint (2 ^ k :: 64 word)"
proof -
  have "(2::int) ^ k < 2 ^ 63" using assms by (intro power_strict_increasing) simp_all
  moreover have "- (2 ^ 63) \<le> (2::int) ^ k" by (rule order_trans [of _ 0]) simp_all
  ultimately have "sint (word_of_int (2 ^ k) :: 64 word) = 2 ^ k" by (rule sint_small64 [rotated])
  then show ?thesis by simp
qed

text \<open>
  Claim C6. \<open>NewTokenBucketLimiter\<close> returns the configuration error, and no limiter,
  exactly when \<open>numBuckets\<close> is zero or not a power of two. It returns a limiter
  exactly for the powers of two below \<open>2 ^ 63\<close> (at \<open>2 ^ 63\<close> the conversion
  \<open>int(numBuckets)\<close> is negative and the allocation panics, which is neither). It
  rejects 3, 5 and 6 and accepts 1, 2, 4 and 64.
\<close>

theorem construction_validation:
  "(NewTokenBucketLimiter n cap nanos now = Inl InvalidConfiguration)
     = (n = 0 \<or> \<not> is_power_of_two n)
   \<and> ((\<exists>t. NewTokenBucketLimiter n cap nanos now = Inr t) = (is_power_of_two n \<and> n \<noteq> 2 ^ 63))
   \<and> NewTokenBucketLimiter 3 cap nanos now = Inl InvalidConfiguration
   \<and> NewTokenBucketLimiter 5 cap nanos now = Inl InvalidConfiguration
   \<and> NewTokenBucketLimiter 6 cap nanos now = Inl InvalidConfiguration
   \<and> (\<exists>t. NewTokenBucketLimiter 1 cap nanos now = Inr t \<and> length (buckets t) = 1)
   \<and> (\<exists>t. NewTokenBucketLimiter 2 cap nanos now = Inr t \<and> length (buckets t) = 2)
   \<and> (\<exists>t. NewTokenBucketLimiter 4 cap nanos now = Inr t \<and> length (buckets t) = 4)
   \<and> (\<exists>t. NewTokenBucketLimiter 64 cap nanos now = Inr t \<and> length (buckets t) = 64)"
proof -
  have inv: "(NewTokenBucketLimiter n cap nanos now = Inl InvalidConfiguration)
     = (n = 0 \<or> \<not> is_power_of_two n)" for n
  proof (cases "n \<noteq> 0 \<and> n AND (n - 1) = 0")
    case False
    then have "\<not> is_power_of_two n" by (simp only: is_power_of_two_def word_pow2_iff not_False_eq_True)
    with False show ?thesis by (simp add: New_invalid)
  next
    case True
    then have p: "is_power_of_two n" by (simp only: is_power_of_two_def word_pow2_iff)
    have "NewTokenBucketLimiter n cap nanos now \<noteq> Inl InvalidConfiguration"
    proof (cases "0 < sint n")
      case True
      with \<open>n \<noteq> 0 \<and> n AND (n - 1) = 0\<close> show ?thesis by (simp add: New_ok)
    next
      case False
      moreover have "sint n \<noteq> 0" using True by (simp add: signed_eq_0_iff)
      ultimately have "sint n < 0" by simp
      with True show ?thesis by (simp add: New_negative)
    qed
    with p True show ?thesis by simp
  qed
  have len: "\<exists>t. NewTokenBucketLimiter n cap nanos now = Inr t \<and> length (buckets t) = unat n"
    if "is_power_of_two n" "n \<noteq> 2 ^ 63" for n
  proof -
    from that(1) obtain k where k: "k < 64" "n = 2 ^ k" by (auto simp add: is_power_of_two_def)
    with that(2) have "k \<noteq> 63" by auto
    with k have "k < 63" by simp
    then have "0 < sint n" unfolding k(2) by (rule sint_pow2_pos)
    moreover have "n \<noteq> 0 \<and> n AND (n - 1) = 0"
      using that(1) by (simp only: is_power_of_two_def word_pow2_iff)
    ultimately show ?thesis by (simp add: New_ok)
  qed
  have ok: "(\<exists>t. NewTokenBucketLimiter n cap nanos now = Inr t) = (is_power_of_two n \<and> n \<noteq> 2 ^ 63)"
  proof
    assume "\<exists>t. NewTokenBucketLimiter n cap nanos now = Inr t"
    then obtain t where t: "NewTokenBucketLimiter n cap nanos now = Inr t" ..
    from New_cases(1,2) [OF t] have "is_power_of_two n"
      by (simp only: is_power_of_two_def flip: word_pow2_iff) simp
    moreover have "n \<noteq> 2 ^ 63" using New_cases(3) [OF t] by auto
    ultimately show "is_power_of_two n \<and> n \<noteq> 2 ^ 63" ..
  next
    assume "is_power_of_two n \<and> n \<noteq> 2 ^ 63"
    then show "\<exists>t. NewTokenBucketLimiter n cap nanos now = Inr t" using len [of n] by blast
  qed
  have p3: "\<not> is_power_of_two 3" "\<not> is_power_of_two 5" "\<not> is_power_of_two 6"
    by (simp_all only: is_power_of_two_def flip: word_pow2_iff) simp_all
  have p1: "is_power_of_two 1" "is_power_of_two 2" "is_power_of_two 4" "is_power_of_two 64"
    by (simp_all only: is_power_of_two_def flip: word_pow2_iff) simp_all
  show ?thesis
    using inv [of 3] inv [of 5] inv [of 6] inv [of n] ok p3 len [OF p1(1)] len [OF p1(2)] len [OF p1(3)] len [OF p1(4)]
    by simp
qed

theorem construction_validation_witness:
  "NewTokenBucketLimiter 3 5 1000000000 0 = Inl InvalidConfiguration
   \<and> \<not> is_power_of_two 3
   \<and> NewTokenBucketLimiter 0 5 1000000000 0 = Inl InvalidConfiguration
   \<and> NewTokenBucketLimiter 4 5 1000000000 7
       = Inr \<lparr>buckets = [360287970189639687, 360287970189639687, 360287970189639687,
                          360287970189639687],
              bucketMask = 3, burstCapacity = 5, refillIntervalNanos = 1000000000,
              numBuckets = 4\<rparr>"
proof -
  have "NewTokenBucketLimiter 4 5 1000000000 7
       = Inr \<lparr>buckets = [360287970189639687, 360287970189639687, 360287970189639687,
                          360287970189639687],
              bucketMask = 3, burstCapacity = 5, refillIntervalNanos = 1000000000,
              numBuckets = 4\<rparr>"
    by code_simp
  moreover have "NewTokenBucketLimiter 0 5 1000000000 0 = Inl InvalidConfiguration"
    by code_simp
  moreover have "NewTokenBucketLimiter 3 5 1000000000 0 = Inl InvalidConfiguration"
    using construction_validation [of 3 5 1000000000 0] by auto
  moreover have "\<not> is_power_of_two 3"
    using construction_validation [of 3 5 1000000000 0] by auto
  ultimately show ?thesis by simp
qed

section \<open>Check leaves the buckets alone\<close>

lemma run_calls_checks:
  "run_calls t (map (\<lambda>(now, i). (now, CheckCall i)) cs)
     = Some (map (\<lambda>(now, i). fst (Check t now i)) cs, t)"
proof (induction cs)
  case Nil
  show ?case by simp
next
  case (Cons c cs)
  obtain now i where c: "c = (now, i)" by (cases c)
  obtain r t1 where r: "Check t now i = (r, t1)" by (cases "Check t now i")
  then have t1: "t1 = t" and r': "r = fst (Check t now i)"
    using Check_state [of t now i] by simp_all
  have step: "do_call t (now, CheckCall i) = Some (r, t)" using r t1 by simp
  have "run_calls t ((now, CheckCall i) # map (\<lambda>(now, i). (now, CheckCall i)) cs)
     = Some (r # map (\<lambda>(now, i). fst (Check t now i)) cs, t)"
    using step Cons.IH by (simp del: do_call.simps)
  then show ?case by (simp add: c r' del: run_calls.simps)
qed

text \<open>
  Claim C8. \<open>Check\<close> has no effect on the shared state: the limiter after a \<open>Check\<close>,
  and so the packed word of every bucket, is the limiter before it; any sequence of
  \<open>Check\<close> calls leaves the limiter as it was, each call answering what it would have
  answered alone.
\<close>

theorem Check_no_side_effect:
  "snd (Check t now ident) = t
   \<and> buckets (snd (Check t now ident)) = buckets t
   \<and> run_calls t (map (\<lambda>(now, i). (now, CheckCall i)) cs)
       = Some (map (\<lambda>(now, i). fst (Check t now i)) cs, t)"
  by (simp add: Check_state run_calls_checks)

section \<open>Bucket indexing\<close>

text \<open>
  Claim C9. For a constructed limiter and every identifier, the bucket index is the
  64-bit FNV-1a hash of the identifier masked by \<open>numBuckets - 1\<close>; it lies in
  \<open>[0, numBuckets)\<close>, inside the bucket array; and after any sequence of calls the
  same identifier still maps to the same index.
\<close>

theorem index_is_masked_hash:
  assumes "NewTokenBucketLimiter n cap nanos now = Inr t"
  shows "index t ident = FNV1a64 ident AND (n - 1)
    \<and> 0 \<le> sint (index t ident) \<and> sint (index t ident) < uint n
    \<and> in_range (buckets t) (index t ident)
    \<and> (\<exists>rs t'. run_calls t calls = Some (rs, t') \<and> index t' ident = index t ident)"
proof -
  have wf: "well_formed t" using assms by (rule New_well_formed)
  have nb: "numBuckets t = n" "bucketMask t = n - 1" using New_cases(4) [OF assms] by simp_all
  have 1: "index t ident = FNV1a64 ident AND (n - 1)" by (simp add: index_spec nb)
  have "index t ident < n"
    using index_bounds(1) [OF wf, of ident] by (simp add: nb word_less_nat_alt)
  then have "uint (index t ident) < uint n" by (simp add: word_less_def)
  then have 2: "0 \<le> sint (index t ident)" "sint (index t ident) < uint n"
    using index_bounds(2) [OF wf, of ident] by simp_all
  have 3: "in_range (buckets t) (index t ident)" using wf by (rule index_in_range)
  obtain rs t' where r: "run_calls t calls = Some (rs, t')" using run_calls_total by blast
  then have "bucketMask t' = bucketMask t" using run_calls_config by blast
  then have "index t' ident = index t ident" by (simp add: index_def)
  with r 1 2 3 show ?thesis by blast
qed

theorem index_is_masked_hash_witness:
  "NewTokenBucketLimiter 4 5 1000000000 7
     = Inr \<lparr>buckets = [360287970189639687, 360287970189639687, 360287970189639687,
                        360287970189639687],
            bucketMask = 3, burstCapacity = 5, refillIntervalNanos = 1000000000,
            numBuckets = 4\<rparr>
   \<and> FNV1a64 [120] = 12638214688346347271
   \<and> index \<lparr>buckets = [360287970189639687, 360287970189639687, 360287970189639687,
                        360287970189639687],
            bucketMask = 3, burstCapacity = 5, refillIntervalNanos = 1000000000,
            numBuckets = 4\<rparr> [120] = 3"
proof -
  let ?t = "\<lparr>buckets = [360287970189639687, 360287970189639687, 360287970189639687,
                        360287970189639687],
            bucketMask = 3, burstCapacity = 5, refillIntervalNanos = 1000000000,
            numBuckets = 4\<rparr>"
  have c: "NewTokenBucketLimiter 4 5 1000000000 7 = Inr ?t" by code_simp
  have h: "FNV1a64 [120] = 12638214688346347271" by code_simp
  have "index ?t [120] = FNV1a64 [120] AND (4 - 1)"
    using index_is_masked_hash [OF c, of "[120]" "[]"] by (rule conjunct1)
  then have i: "index ?t [120] = 3" by (simp add: h)
  show ?thesis using c h i by (intro conjI)
qed

section \<open>The concrete scenario\<close>

lemma refill_same_instant:
  assumes "stamp b = Unix now"
  shows "refill b now rate cap = Inr b"
  using assms by (simp add: refill_def Since_def Let_def)

lemma Unix_add: "Unix (a + b) = Unix a + Unix b"
proof -
  have "a + b = word_of_int (uint a + uint b)" by simp
  then have "(ucast (a + b) :: 56 word) = word_of_int (uint a + uint b)"
    by (simp only: ucast_woi_64_56)
  also have "\<dots> = word_of_int (uint a) + word_of_int (uint b)"
    by (rule wi_hom_add [symmetric])
  also have "\<dots> = ucast a + ucast b" by (simp only: ucast_eq)
  finally show ?thesis by (simp only: Unix_def)
qed

lemma Unix_of_nat: "Unix (of_nat n) = of_nat n"
proof -
  have "(of_nat n :: 64 word) = word_of_int (int n)" by simp
  then have "(ucast (of_nat n :: 64 word) :: 56 word) = word_of_int (int n)"
    by (simp only: ucast_woi_64_56)
  then show ?thesis by (simp add: Unix_def)
qed

lemma index_single: "bucketMask t = 0 \<Longrightarrow> index t ident = 0"
  by (simp add: index_def)

lemma TakeToken_single:
  assumes "buckets t = [packed b]" "bucketMask t = 0"
    and "refill b now (refillIntervalNanos t) (burstCapacity t) = Inr b'"
  shows "TakeToken t now ident =
    Some (if level b' > 0
          then (Inr True, t\<lparr>buckets := [packed (b'\<lparr>level := level b' - 1\<rparr>)]\<rparr>)
          else (Inr False, if b' = b then t else t\<lparr>buckets := [packed b']\<rparr>))"
  using assms
  by (simp add: TakeToken_def takeTokenInner_once index_single Get_def in_range_def
      unpack_packed take_bucket_def)

lemma refill_one_second:
  "refill \<lparr>level = 0, stamp = Unix t0\<rparr> (t0 + 1000000000) 1000000000 5
     = Inr \<lparr>level = 1, stamp = Unix (t0 + 1000000000)\<rparr>"
proof -
  have "Unix (t0 + 1000000000) - Unix t0 = Unix 1000000000"
    by (simp only: Unix_add) simp
  also have "Unix 1000000000 = 1000000000" by (simp add: Unix_def)
  finally have "Unix (t0 + 1000000000) - Unix t0 = 1000000000" .
  then have e: "Since (Unix (t0 + 1000000000)) (Unix t0) = 1000000000"
    by (simp add: Since_def)
  have d: "go_div 1000000000 1000000000 = 1" by (simp add: go_div_def)
  have m: "go_rem 1000000000 1000000000 = 0" by (simp add: go_rem_def signed_modulo_int_def)
  show ?thesis
    by (simp add: refill_def Let_def e d m Sub_def word_sless_alt word_sle_eq)
qed


text \<open>
  Claim C7. A limiter constructed with \<open>numBuckets = 1\<close>, \<open>burstCapacity = 5\<close>,
  \<open>refillRate = 1\<close> and a unit of one second (\<open>nanoRate\<close> gives \<open>10 ^ 9\<close> nanoseconds per
  token) at clock reading \<open>t0\<close>: five \<open>TakeToken("x")\<close> calls at \<open>t0\<close> return true, a
  sixth returns false; one second later the next call returns true and the one after
  it false. The byte string \<open>"x"\<close> is \<open>[120]\<close>.
\<close>

theorem concrete_scenario:
  "\<exists>t t'. NewTokenBucketLimiter 1 5 1000000000 t0 = Inr t
     \<and> run_calls t
          [(t0, TakeTokenCall [120]), (t0, TakeTokenCall [120]), (t0, TakeTokenCall [120]),
           (t0, TakeTokenCall [120]), (t0, TakeTokenCall [120]), (t0, TakeTokenCall [120]),
           (t0 + 1000000000, TakeTokenCall [120]), (t0 + 1000000000, TakeTokenCall [120])]
        = Some ([Inr True, Inr True, Inr True, Inr True, Inr True, Inr False,
                 Inr True, Inr False], t')"
proof -
  let ?lim = "\<lambda>l s. \<lparr>buckets = [packed \<lparr>level = l, stamp = s\<rparr>], bucketMask = 0,
       burstCapacity = 5, refillIntervalNanos = 1000000000, numBuckets = 1\<rparr>"
  have new: "NewTokenBucketLimiter 1 5 1000000000 t0 = Inr (?lim 5 (Unix t0))"
    using New_ok [of 1 5 1000000000 t0] by (simp add: newTokenBucket_def)
  have hit: "TakeToken (?lim l (Unix now)) now [120] = Some (Inr True, ?lim (l - 1) (Unix now))"
    if "0 < l" for l now
    using that TakeToken_single [of "?lim l (Unix now)" "\<lparr>level = l, stamp = Unix now\<rparr>" now
        "\<lparr>level = l, stamp = Unix now\<rparr>" "[120]"]
    by (simp add: refill_same_instant)
  have miss: "TakeToken (?lim 0 (Unix now)) now [120] = Some (Inr False, ?lim 0 (Unix now))"
    for now
    using TakeToken_single [of "?lim 0 (Unix now)" "\<lparr>level = 0, stamp = Unix now\<rparr>" now
        "\<lparr>level = 0, stamp = Unix now\<rparr>" "[120]"]
    by (simp add: refill_same_instant)
  have later: "TakeToken (?lim 0 (Unix t0)) (t0 + 1000000000) [120]
      = Some (Inr True, ?lim 0 (Unix (t0 + 1000000000)))"
    using TakeToken_single [of "?lim 0 (Unix t0)" "\<lparr>level = 0, stamp = Unix t0\<rparr>"
        "t0 + 1000000000" "\<lparr>level = 1, stamp = Unix (t0 + 1000000000)\<rparr>" "[120]"]
    by (simp add: refill_one_second)
  have "run_calls (?lim 5 (Unix t0))
          [(t0, TakeTokenCall [120]), (t0, TakeTokenCall [120]), (t0, TakeTokenCall [120]),
           (t0, TakeTokenCall [120]), (t0, TakeTokenCall [120]), (t0, TakeTokenCall [120]),
           (t0 + 1000000000, TakeTokenCall [120]), (t0 + 1000000000, TakeTokenCall [120])]
        = Some ([Inr True, Inr True, Inr True, Inr True, Inr True, Inr False,
                 Inr True, Inr False], ?lim 0 (Unix (t0 + 1000000000)))"
    by (simp add: hit miss later)
  with new show ?thesis by blast
qed

section \<open>Negative rates\<close>















section \<open>Non-drift\<close>

lemma sint_woi_56: "- (2 ^ 55) \<le> k \<Longrightarrow> k < 2 ^ 55 \<Longrightarrow> sint (word_of_int k :: 56 word) = k"
  by (simp add: sint_sbintrunc' signed_take_bit_int_eq_self)

lemma div_sub_mult:
  fixes c K r :: int
  assumes "r \<noteq> 0"
  shows "(c - K * r) div r = c div r - K" "(c - K * r) mod r = c mod r"
proof -
  have e: "c - K * r = c + (- K) * r" by simp
  have "(c + (- K) * r) div r = (- K) + c div r" using assms by (rule div_mult_self1)
  then show "(c - K * r) div r = c div r - K" by (simp only: e)
  have "(c + (- K) * r) mod r = c mod r" by (rule mod_mult_self1)
  then show "(c - K * r) mod r = c mod r" by (simp only: e)
qed

lemma div_lower:
  fixes c K r :: int
  assumes "0 < r" "K * r \<le> c"
  shows "K \<le> c div r"
proof -
  have "(K * r) div r \<le> c div r" using assms(2,1) by (rule zdiv_mono1)
  then show ?thesis using assms(1) by simp
qed

lemma refill_credit:
  fixes L K c :: int
  assumes r: "0 < sint rate" and s: "Unix t0 = s"
    and L: "0 \<le> L" and K: "0 \<le> K" "K * sint rate \<le> c" and c: "c < 2 ^ 55"
    and cap: "L + c div sint rate \<le> uint cap"
  shows "refill \<lparr>level = word_of_int (L + K), stamp = s + word_of_int (K * sint rate)\<rparr>
           (t0 + word_of_int c) rate cap
         = Inr \<lparr>level = word_of_int (L + c div sint rate),
                stamp = s + word_of_int (c div sint rate * sint rate)\<rparr>"
proof -
  let ?r = "sint rate"
  define q where "q = c div ?r"
  define lv where "lv = L + K"
  define lv' where "lv' = L + q"
  define m where "m = K * ?r"
  define m' where "m' = q * ?r"
  define e where "e = c - m"
  let ?b = "\<lparr>level = word_of_int lv, stamp = s + word_of_int m\<rparr> :: tokenBucket"
  let ?now = "t0 + word_of_int c"
  have r0: "?r \<noteq> 0" "rate \<noteq> 0" using r by auto
  have Kq: "K \<le> q" unfolding q_def using r K(2) by (rule div_lower)
  have capb: "uint cap < 256" using uint_bounded [of cap] by simp
  have lvb: "0 \<le> lv" "lv < 256" "lv \<le> uint cap" "lv \<le> lv'"
    using L K(1) Kq cap capb by (simp_all add: lv_def lv'_def q_def)
  have lvb': "0 \<le> lv'" "lv' < 256" "lv' \<le> uint cap"
    using lvb cap capb by (simp_all add: lv'_def q_def)
  have ul': "uint (word_of_int lv :: 8 word) = lv" using lvb(1,2) by (rule uint_woi_8)
  then have ul: "uint (level ?b) = lv" by simp
  then have le: "level ?b \<le> cap" using lvb(3) by (simp only: word_le_def)
  have "Unix ?now = s + word_of_int c"
    by (simp only: Unix_add s) (simp add: Unix_def ucast_woi_64_56)
  then have d: "Unix ?now - stamp ?b = word_of_int e" by (simp add: e_def)
  have "0 \<le> m" unfolding m_def using K(1) r by (intro mult_nonneg_nonneg) simp_all
  moreover have "m \<le> c" unfolding m_def by (rule K(2))
  ultimately have eb: "0 \<le> e" "e < 2 ^ 55"
    using c by (simp_all add: e_def)
  have "- (2 ^ 55) \<le> e" using eb(1) by (rule order_trans [rotated]) simp
  then have "sint (word_of_int e :: 56 word) = e" using eb(2) by (rule sint_woi_56)
  then have el: "elapsed_of ?b ?now = e" by (simp only: elapsed_of_def d)
  have tk: "e div ?r = q - K" "e mod ?r = c mod ?r"
    unfolding e_def m_def q_def using r0(1) by (rule div_sub_mult)+
  have eq: "refill ?b ?now rate cap = Inr (refill_spec ?b ?now rate cap)"
    using le r0(2) by (intro refill_eq_spec) simp_all
  have goal: "refill ?b ?now rate cap = Inr \<lparr>level = word_of_int lv', stamp = s + word_of_int m'\<rparr>"
  proof (cases "q = K")
    case True
    then have "refill_spec ?b ?now rate cap = ?b"
      by (simp add: refill_spec_cases el tk)
    moreover have "lv' = lv" "m' = m" using True by (simp_all add: lv_def lv'_def m_def m'_def)
    ultimately show ?thesis using eq by simp
  next
    case False
    with Kq have gt: "0 < q - K" by simp
    have epos: "0 < e"
    proof (rule ccontr)
      assume "\<not> 0 < e"
      with eb(1) have "e = 0" by simp
      then have "e div ?r = 0" by simp
      with tk(1) gt show False by simp
    qed
    have "lv + (q - K) = lv'" by (simp add: lv_def lv'_def)
    then have new: "min (uint cap) (uint (level ?b) + e div ?r) = lv'"
      using lvb'(3) by (simp add: ul' tk)
    have "lv' \<noteq> lv" using gt by (simp add: lv_def lv'_def)
    then have ne: "lv' \<noteq> uint (level ?b)" by (simp only: ul) simp
    have "e - e mod ?r = (q - K) * ?r"
      using tk(1) by (metis minus_mod_eq_div_mult)
    then have "m + (e - e mod ?r) = m'" by (simp add: m_def m'_def algebra_simps)
    then have st: "stamp ?b + word_of_int (e - e mod ?r) = s + word_of_int m'"
      by (metis add.assoc tokenBucket.select_convs(2) wi_hom_add)
    have "refill_spec ?b ?now rate cap
      = ?b\<lparr>level := word_of_int lv',
            stamp := word_of_int (uint (stamp ?b) + (e - e mod ?r))\<rparr>"
      using gt epos ne by (simp only: refill_spec_cases el new) (simp add: tk)
    also have "word_of_int (uint (stamp ?b) + (e - e mod ?r)) = stamp ?b + word_of_int (e - e mod ?r)"
      by simp
    finally have "refill_spec ?b ?now rate cap = \<lparr>level = word_of_int lv', stamp = s + word_of_int m'\<rparr>"
      by (simp only: st) simp
    with eq show ?thesis by simp
  qed
  then show ?thesis by (simp only: lv_def lv'_def m_def m'_def q_def)
qed


lemma refills_credit:
  fixes L :: int
  assumes r: "0 < sint rate" and s: "Unix t0 = s" and L: "0 \<le> L"
    and c0: "0 \<le> c0" and tot: "c0 + int (sum_list ds) < 2 ^ 55"
    and cap: "L + (c0 + int (sum_list ds)) div sint rate \<le> uint cap"
  shows "refills \<lparr>level = word_of_int (L + c0 div sint rate),
                  stamp = s + word_of_int (c0 div sint rate * sint rate)\<rparr>
           (instants (t0 + word_of_int c0) ds) rate cap
         = Inr \<lparr>level = word_of_int (L + (c0 + int (sum_list ds)) div sint rate),
                stamp = s + word_of_int ((c0 + int (sum_list ds)) div sint rate * sint rate)\<rparr>"
  using c0 tot cap
proof (induction ds arbitrary: c0)
  case Nil
  then show ?case by simp
next
  case (Cons d ds)
  let ?r = "sint rate"
  define c1 where "c1 = c0 + int d"
  have sum: "c1 + int (sum_list ds) = c0 + int (sum_list (d # ds))" by (simp add: c1_def)
  have c1: "0 \<le> c1" "c0 \<le> c1" "c1 \<le> c0 + int (sum_list (d # ds))"
    using Cons.prems(1) by (simp_all add: c1_def)
  have K: "0 \<le> c0 div ?r" using Cons.prems(1) r by (simp add: pos_imp_zdiv_nonneg_iff)
  have "c0 div ?r * ?r = c0 - c0 mod ?r" by (simp add: minus_mod_eq_div_mult)
  moreover have "0 \<le> c0 mod ?r" using r by simp
  ultimately have Kr: "c0 div ?r * ?r \<le> c1" using c1(2) by simp
  have lt: "c1 < 2 ^ 55" using c1(3) Cons.prems(2) by simp
  have "c1 div ?r \<le> (c0 + int (sum_list (d # ds))) div ?r"
    using c1(3) r by (rule zdiv_mono1)
  then have cap1: "L + c1 div ?r \<le> uint cap" using Cons.prems(3) by simp
  have now: "t0 + word_of_int c0 + of_nat d = t0 + word_of_int c1"
    by (simp add: c1_def)
  have step: "refill \<lparr>level = word_of_int (L + c0 div ?r), stamp = s + word_of_int (c0 div ?r * ?r)\<rparr>
           (t0 + word_of_int c1) rate cap
         = Inr \<lparr>level = word_of_int (L + c1 div ?r), stamp = s + word_of_int (c1 div ?r * ?r)\<rparr>"
    using r s L K Kr lt cap1 by (rule refill_credit)
  have rest: "refills \<lparr>level = word_of_int (L + c1 div ?r), stamp = s + word_of_int (c1 div ?r * ?r)\<rparr>
           (instants (t0 + word_of_int c1) ds) rate cap
         = Inr \<lparr>level = word_of_int (L + (c1 + int (sum_list ds)) div ?r),
                stamp = s + word_of_int ((c1 + int (sum_list ds)) div ?r * ?r)\<rparr>"
    using c1(1) Cons.prems(2,3) by (intro Cons.IH) (simp_all only: sum)
  have "refills \<lparr>level = word_of_int (L + c0 div ?r), stamp = s + word_of_int (c0 div ?r * ?r)\<rparr>
           (instants (t0 + word_of_int c0) (d # ds)) rate cap
        = refills \<lparr>level = word_of_int (L + c1 div ?r), stamp = s + word_of_int (c1 div ?r * ?r)\<rparr>
           (instants (t0 + word_of_int c1) ds) rate cap"
    by (simp only: instants.simps refills.simps now step sum.case)
  then show ?case by (simp only: rest sum)
qed

text \<open>
  Claim C4 (amended). Non-drift inside the wraparound window: for every starting
  bucket stamped at clock reading \<open>t0\<close>, every positive rate and every list of waiting
  intervals whose sum \<open>E\<close> is below \<open>2 ^ 55\<close> nanoseconds and does not take the bucket
  past its capacity (\<open>level + floor(E / rate) \<le> capacity\<close>), refilling after each
  interval gives the same level and stamp as one refill after \<open>E\<close>: the level has
  grown by \<open>floor(E / rate)\<close> and the stamp by \<open>E - (E mod rate)\<close>, however the wait was
  subdivided.
\<close>

theorem non_drift:
  assumes "0 <s rate" and "stamp b = Unix t0" and "int (sum_list ds) < 2 ^ 55"
    and "uint (level b) + int (sum_list ds) div sint rate \<le> uint cap"
  shows "refills b (instants t0 ds) rate cap = refill b (t0 + of_nat (sum_list ds)) rate cap
    \<and> refill b (t0 + of_nat (sum_list ds)) rate cap
        = Inr \<lparr>level = level b + word_of_int (int (sum_list ds) div sint rate),
               stamp = stamp b
                 + word_of_int (int (sum_list ds) - int (sum_list ds) mod sint rate)\<rparr>
    \<and> (\<exists>b'. refills b (instants t0 ds) rate cap = Inr b'
          \<and> uint (level b') = uint (level b) + int (sum_list ds) div sint rate)"
proof -
  let ?r = "sint rate"
  let ?E = "int (sum_list ds)"
  let ?L = "uint (level b)"
  let ?res = "\<lparr>level = word_of_int (?L + ?E div ?r),
                stamp = stamp b + word_of_int (?E div ?r * ?r)\<rparr> :: tokenBucket"
  have r: "0 < ?r" using assms(1) by (simp add: word_sless_alt)
  have s: "Unix t0 = stamp b" using assms(2) by simp
  have b: "\<lparr>level = word_of_int (?L + 0 div ?r), stamp = stamp b + word_of_int (0 div ?r * ?r)\<rparr> = b"
    by simp
  have b': "\<lparr>level = word_of_int (?L + 0), stamp = stamp b + word_of_int (0 * ?r)\<rparr> = b"
    by simp
  have many: "refills b (instants t0 ds) rate cap = Inr ?res"
    using refills_credit [OF r s, of ?L 0 ds cap] assms(3,4)
    by (simp only: b add_0 word_of_int_0 add_0_right) simp
  have one: "refill b (t0 + of_nat (sum_list ds)) rate cap = Inr ?res"
    using refill_credit [OF r s, of ?L 0 ?E cap] assms(3,4)
    by (simp only: b') simp
  have q: "0 \<le> ?E div ?r" using r by (simp add: pos_imp_zdiv_nonneg_iff)
  have capb: "uint cap < 256" using uint_bounded [of cap] by simp
  have "uint (word_of_int (?L + ?E div ?r) :: 8 word) = ?L + ?E div ?r"
    using q assms(4) capb by (intro uint_woi_8) simp_all
  then have lev: "uint (level ?res) = ?L + ?E div ?r" by simp
  have "?E div ?r * ?r = ?E - ?E mod ?r" by (simp add: minus_mod_eq_div_mult)
  then have res: "?res = \<lparr>level = level b + word_of_int (?E div ?r),
               stamp = stamp b + word_of_int (?E - ?E mod ?r)\<rparr>"
    by (simp only:) simp
  show ?thesis using many one lev res by (metis)
qed


theorem non_drift_witness:
  "(0 :: int64) <s 10
   \<and> stamp \<lparr>level = 0, stamp = 7\<rparr> = Unix 7
   \<and> int (sum_list [3, 4, 8, 10]) < 2 ^ 55
   \<and> refills \<lparr>level = 0, stamp = 7\<rparr> (instants 7 [3, 4, 8, 10]) 10 5
       = Inr \<lparr>level = 2, stamp = 27\<rparr>
   \<and> refill \<lparr>level = 0, stamp = 7\<rparr> (7 + of_nat (sum_list [3, 4, 8, 10])) 10 5
       = Inr \<lparr>level = 2, stamp = 27\<rparr>"
proof -
  let ?b = "\<lparr>level = 0, stamp = 7\<rparr> :: tokenBucket"
  have h1: "(0 :: int64) <s 10" by (simp add: word_sless_alt)
  have h2: "stamp ?b = Unix 7" by (simp add: Unix_def)
  have h3: "int (sum_list [3, 4, 8, 10]) < 2 ^ 55" by simp
  have h4: "uint (level ?b) + int (sum_list [3, 4, 8, 10]) div sint (10 :: int64) \<le> uint (5 :: uint8)"
    by simp
  have one: "refill ?b (7 + of_nat (sum_list [3, 4, 8, 10])) 10 5 = Inr \<lparr>level = 2, stamp = 27\<rparr>"
    by (simp add: refill_def Let_def Unix_def Since_def Sub_def go_div_def go_rem_def
        word_sle_eq word_sless_alt signed_modulo_int_def)
  have "refills ?b (instants 7 [3, 4, 8, 10]) 10 5
      = refill ?b (7 + of_nat (sum_list [3, 4, 8, 10])) 10 5"
    using non_drift [OF h1 h2 h3 h4] by (rule conjunct1)
  then have many: "refills ?b (instants 7 [3, 4, 8, 10]) 10 5 = Inr \<lparr>level = 2, stamp = 27\<rparr>"
    by (simp only: one)
  show ?thesis using h1 h2 h3 many one by (intro conjI)
qed

text \<open>
  Without the bound on \<open>E\<close> the claim fails. A bucket at level 0 stamped at 0, a rate
  of \<open>2 ^ 48\<close> ns per token and capacity 255: after \<open>E = 3 * 2 ^ 54\<close> ns (192 tokens'
  worth) polled every \<open>2 ^ 54\<close> ns the level is 192, but one refill after \<open>E\<close> sees the
  56-bit difference as negative and credits nothing.
\<close>

theorem non_drift_counterexample:
  "(0 :: int64) <s 281474976710656
   \<and> int (sum_list [18014398509481984, 18014398509481984, 18014398509481984])
        div sint (281474976710656 :: int64) = 192
   \<and> refills \<lparr>level = 0, stamp = 0\<rparr>
        (instants 0 [18014398509481984, 18014398509481984, 18014398509481984])
        281474976710656 255
       = Inr \<lparr>level = 192, stamp = 54043195528445952\<rparr>
   \<and> refill \<lparr>level = 0, stamp = 0\<rparr>
        (0 + of_nat (sum_list [18014398509481984, 18014398509481984, 18014398509481984]))
        281474976710656 255
       = Inr \<lparr>level = 0, stamp = 0\<rparr>"
proof -
  have i: "instants 0 [18014398509481984, 18014398509481984, 18014398509481984]
      = [18014398509481984, 36028797018963968, 54043195528445952]"
    by simp
  have s: "(0 :: int64) + of_nat (sum_list [18014398509481984, 18014398509481984, 18014398509481984])
      = 54043195528445952"
    by simp
  have many: "refills \<lparr>level = 0, stamp = 0\<rparr>
        [18014398509481984, 36028797018963968, 54043195528445952] 281474976710656 255
       = Inr \<lparr>level = 192, stamp = 54043195528445952\<rparr>"
    by code_simp
  have one: "refill \<lparr>level = 0, stamp = 0\<rparr> 54043195528445952 281474976710656 255
       = Inr \<lparr>level = 0, stamp = 0\<rparr>"
    by code_simp
  have r: "(0 :: int64) <s 281474976710656" by (simp add: word_sless_alt)
  have q: "int (sum_list [18014398509481984, 18014398509481984, 18014398509481984])
        div sint (281474976710656 :: int64) = 192"
    by simp
  show ?thesis using r q many one by (simp only: i s)
qed

section \<open>Concurrent callers of TakeToken on one bucket\<close>














lemma count_list_le_length: "count_list cs A \<le> length cs"
  by (induction cs) auto




lemma solo_caller_is_TakeToken:
  assumes "TakeToken t clock ident = Some (r, t')"
  shows "run_schedule clock [0, 0, 0] (t, [Called ident]) = (t', [Returned (index t ident) r])"
  using assms
  by (auto simp add: TakeToken_def takeTokenInner_once caller_step_def Get_def
      CompareAndSwap_def split: sum.splits if_splits prod.splits)









end
